theory Spec2Isabelle
  imports Main
begin

section \<open>Data model (src/src/models.py)\<close>

text \<open>
  Every failure of the Python code is a \<^verbatim>\<open>ValueError\<close>; the raise sites differ in their
  message only.  The model keeps one constructor per raise site, so that each \<^verbatim>\<open>raise\<close>
  is a branch of its own.
\<close>

datatype error =
    EmptyPlanetName
  | NonPositiveTravelTime int
  | NegativeDay int
  | NegativeFuel int
  | NegativeEncounters int
  | NoRoutes
  | StartNotFound string
  | DestinationNotFound string

record Route =
  origin :: string
  destination :: string
  travel_time :: int

text \<open>\<^verbatim>\<open>Route.__post_init__\<close>: the validation run when a route is created.\<close>

definition Route_post_init :: "Route \<Rightarrow> error + Route" where
  "Route_post_init r =
     (if origin r = [] \<or> destination r = [] then Inl EmptyPlanetName
      else if travel_time r \<le> 0 then Inl (NonPositiveTravelTime (travel_time r))
      else Inr r)"

definition valid_route :: "Route \<Rightarrow> bool" where
  "valid_route r = (Route_post_init r = Inr r)"

record SearchState =
  planet :: string
  day :: int
  fuel :: int
  encounters :: int

text \<open>
  Creating a \<^verbatim>\<open>SearchState\<close> runs \<^verbatim>\<open>SearchState.__post_init__\<close>, which raises on a
  negative day, fuel or encounter count (checked in this order).
\<close>

definition new_SearchState :: "string \<Rightarrow> int \<Rightarrow> int \<Rightarrow> int \<Rightarrow> error + SearchState" where
  "new_SearchState p d f e =
     (if d < 0 then Inl (NegativeDay d)
      else if f < 0 then Inl (NegativeFuel f)
      else if e < 0 then Inl (NegativeEncounters e)
      else Inr \<lparr>planet = p, day = d, fuel = f, encounters = e\<rparr>)"

section \<open>The galaxy graph (src/src/galaxy.py)\<close>

text \<open>
  \<^verbatim>\<open>_adjacency\<close> is a \<^verbatim>\<open>defaultdict(list)\<close>: a dictionary in insertion order whose
  missing keys start as the empty list when they are first indexed.  It is an association
  list here; \<^verbatim>\<open>_planets\<close> is a set of names.
\<close>

record Galaxy =
  adjacency :: "(string \<times> (string \<times> int) list) list"
  planets :: "string set"

text \<open>\<^verbatim>\<open>self._adjacency[k].append(x)\<close> on the default dictionary.\<close>

fun adj_append :: "string \<Rightarrow> string \<times> int \<Rightarrow> (string \<times> (string \<times> int) list) list
    \<Rightarrow> (string \<times> (string \<times> int) list) list" where
  "adj_append k x [] = [(k, [x])]"
| "adj_append k x ((k', l) # rest) =
     (if k = k' then (k', l @ [x]) # rest else (k', l) # adj_append k x rest)"

text \<open>The body of the loop over the routes in \<^verbatim>\<open>Galaxy.__init__\<close>.\<close>

definition add_route :: "Galaxy \<Rightarrow> Route \<Rightarrow> Galaxy" where
  "add_route g route =
     \<lparr>adjacency =
        adj_append (destination route) (origin route, travel_time route)
          (adj_append (origin route) (destination route, travel_time route) (adjacency g)),
      planets = insert (destination route) (insert (origin route) (planets g))\<rparr>"

definition Galaxy_init :: "Route list \<Rightarrow> error + Galaxy" where
  "Galaxy_init routes =
     (if routes = [] then Inl NoRoutes
      else Inr (foldl add_route \<lparr>adjacency = [], planets = {}\<rparr> routes))"

text \<open>\<^verbatim>\<open>self._adjacency.get(planet, [])\<close>: a lookup that does not insert.\<close>

definition get_neighbors :: "Galaxy \<Rightarrow> string \<Rightarrow> (string \<times> int) list" where
  "get_neighbors g p = (case map_of (adjacency g) p of None \<Rightarrow> [] | Some l \<Rightarrow> l)"

definition has_planet :: "Galaxy \<Rightarrow> string \<Rightarrow> bool" where
  "has_planet g p = (p \<in> planets g)"

text \<open>
  The inner \<^verbatim>\<open>for\<close> loop of \<^verbatim>\<open>is_connected\<close>: it either returns \<^verbatim>\<open>True\<close> from the
  whole function (\<open>Reached\<close>) or ends with the updated visited set and queue.
\<close>

datatype scan = Reached | Frontier "string set" "string list"

fun scan_neighbors :: "string \<Rightarrow> (string \<times> int) list \<Rightarrow> string set \<Rightarrow> string list \<Rightarrow> scan" where
  "scan_neighbors endp [] visited queue = Frontier visited queue"
| "scan_neighbors endp ((neighbor, _) # rest) visited queue =
     (if neighbor = endp then Reached
      else if neighbor \<notin> visited
        then scan_neighbors endp rest (insert neighbor visited) (queue @ [neighbor])
      else scan_neighbors endp rest visited queue)"

text \<open>All names that occur as a neighbour in the adjacency structure (used as a bound only).\<close>

definition nodes :: "Galaxy \<Rightarrow> string set" where
  "nodes g = (\<Union>kl \<in> set (adjacency g). fst ` set (snd kl))"

lemma finite_nodes: "finite (nodes g)"
  by (simp add: nodes_def)

lemma get_neighbors_nodes: "fst ` set (get_neighbors g p) \<subseteq> nodes g"
proof (cases "map_of (adjacency g) p")
  case None
  then show ?thesis by (simp add: get_neighbors_def)
next
  case (Some l)
  then have "(p, l) \<in> set (adjacency g)" by (rule map_of_SomeD)
  then have "fst ` set l \<subseteq> nodes g" by (force simp: nodes_def)
  with Some show ?thesis by (simp add: get_neighbors_def)
qed

lemma scan_neighbors_Frontier:
  "scan_neighbors endp nbrs visited queue = Frontier visited' queue' \<Longrightarrow>
     visited \<subseteq> visited' \<and> visited' \<subseteq> visited \<union> fst ` set nbrs \<and>
     (visited' = visited \<and> queue' = queue \<or> visited \<subset> visited')"
proof (induction nbrs arbitrary: visited queue)
  case Nil
  then show ?case by simp
next
  case (Cons a nbrs)
  obtain n t where a: "a = (n, t)" by (cases a)
  show ?case
  proof (cases "n \<in> visited")
    case True
    with Cons.prems a have "scan_neighbors endp nbrs visited queue = Frontier visited' queue'"
      by (simp split: if_splits)
    from Cons.IH[OF this] show ?thesis by auto
  next
    case False
    with Cons.prems a
    have "scan_neighbors endp nbrs (insert n visited) (queue @ [n]) = Frontier visited' queue'"
      by (simp split: if_splits)
    from Cons.IH[OF this] False a show ?thesis by auto
  qed
qed

function connected_loop :: "Galaxy \<Rightarrow> string \<Rightarrow> string set \<Rightarrow> string list \<Rightarrow> bool" where
  "connected_loop g endp visited [] = False"
| "connected_loop g endp visited (current # queue) =
     (case scan_neighbors endp (get_neighbors g current) visited queue of
        Reached \<Rightarrow> True
      | Frontier visited' queue' \<Rightarrow> connected_loop g endp visited' queue')"
  by pat_completeness auto
termination
proof (relation "inv_image (less_than <*lex*> less_than)
    (\<lambda>(g, endp, visited, queue). (card (nodes g - visited), length queue))")
  show "wf (inv_image (less_than <*lex*> less_than)
    (\<lambda>(g, endp :: string, visited, queue :: string list).
       (card (nodes g - visited), length queue)))"
    by (intro wf_inv_image wf_lex_prod wf_less_than)
next
  fix g :: Galaxy and endp :: string and visited :: "string set" and current :: string
    and queue :: "string list" and visited' :: "string set" and queue' :: "string list"
  assume s: "scan_neighbors endp (get_neighbors g current) visited queue = Frontier visited' queue'"
  from scan_neighbors_Frontier[OF s]
  have sub: "visited \<subseteq> visited'"
    and bound: "visited' \<subseteq> visited \<union> fst ` set (get_neighbors g current)"
    and alt: "visited' = visited \<and> queue' = queue \<or> visited \<subset> visited'"
    by blast+
  from alt show "((g, endp, visited', queue'), (g, endp, visited, current # queue))
    \<in> inv_image (less_than <*lex*> less_than)
        (\<lambda>(g, endp, visited, queue). (card (nodes g - visited), length queue))"
  proof
    assume "visited' = visited \<and> queue' = queue"
    then show ?thesis by simp
  next
    assume strict: "visited \<subset> visited'"
    then obtain x where x: "x \<in> visited'" "x \<notin> visited" by blast
    with bound get_neighbors_nodes[of g current] have "x \<in> nodes g" by blast
    with x sub have "nodes g - visited' \<subset> nodes g - visited" by blast
    then have "card (nodes g - visited') < card (nodes g - visited)"
      by (intro psubset_card_mono) (simp_all add: finite_nodes)
    then show ?thesis by simp
  qed
qed

definition is_connected :: "Galaxy \<Rightarrow> string \<Rightarrow> string \<Rightarrow> bool" where
  "is_connected g start endp =
     (if \<not> has_planet g start \<or> \<not> has_planet g endp then False
      else if start = endp then True
      else connected_loop g endp {start} [start])"

section \<open>The path finder (src/src/pathfinder.py)\<close>

record PathFinder =
  galaxy :: Galaxy
  autonomy :: int
  bounty_hunter_schedule :: "string \<rightharpoonup> int set"

definition has_bounty_hunters :: "PathFinder \<Rightarrow> string \<Rightarrow> int \<Rightarrow> bool" where
  "has_bounty_hunters pf p d =
     (case bounty_hunter_schedule pf p of None \<Rightarrow> False | Some days \<Rightarrow> d \<in> days)"

type_synonym visited_map = "string \<times> int \<times> int \<rightharpoonup> int"
type_synonym frontier = "(SearchState \<times> SearchState list) list"

definition should_visit :: "SearchState \<Rightarrow> visited_map \<Rightarrow> bool" where
  "should_visit state visited =
     (case visited (planet state, day state, fuel state) of
        None \<Rightarrow> True
      | Some e \<Rightarrow> encounters state < e)"

text \<open>
  The block that ends each of the three actions:
  \<^verbatim>\<open>if self._should_visit(new_state, visited): visited[key] = new_encounters;
  queue.append((new_state, path + [new_state]))\<close>.
\<close>

definition visit_state :: "SearchState \<Rightarrow> SearchState list \<Rightarrow> visited_map \<times> frontier
    \<Rightarrow> visited_map \<times> frontier" where
  "visit_state new_state path vq =
     (if should_visit new_state (fst vq)
      then ((fst vq)((planet new_state, day new_state, fuel new_state) \<mapsto> encounters new_state),
            snd vq @ [(new_state, path @ [new_state])])
      else vq)"

text \<open>
  \<^verbatim>\<open>new_encounters = current_state.encounters\<close>, incremented when bounty hunters are at
  planet \<open>p\<close> on day \<open>d\<close>.
\<close>

definition new_encounters :: "PathFinder \<Rightarrow> SearchState \<Rightarrow> string \<Rightarrow> int \<Rightarrow> int" where
  "new_encounters pf cur p d =
     (if has_bounty_hunters pf p d then encounters cur + 1 else encounters cur)"

text \<open>Action 1: the loop over the neighbours of the current planet.\<close>

fun travel :: "PathFinder \<Rightarrow> SearchState \<Rightarrow> SearchState list \<Rightarrow> (string \<times> int) list
    \<Rightarrow> visited_map \<times> frontier \<Rightarrow> error + visited_map \<times> frontier" where
  "travel pf cur path [] vq = Inr vq"
| "travel pf cur path ((neighbor, tt) # rest) vq =
     (if tt \<le> fuel cur then
        (case new_SearchState neighbor (day cur + tt) (fuel cur - tt)
                (new_encounters pf cur neighbor (day cur + tt)) of
           Inl e \<Rightarrow> Inl e
         | Inr new_state \<Rightarrow> travel pf cur path rest (visit_state new_state path vq))
      else travel pf cur path rest vq)"

text \<open>Action 2: refuel, only below a full tank.\<close>

definition refuel :: "PathFinder \<Rightarrow> SearchState \<Rightarrow> SearchState list
    \<Rightarrow> visited_map \<times> frontier \<Rightarrow> error + visited_map \<times> frontier" where
  "refuel pf cur path vq =
     (if fuel cur < autonomy pf then
        (case new_SearchState (planet cur) (day cur + 1) (autonomy pf)
                (new_encounters pf cur (planet cur) (day cur + 1)) of
           Inl e \<Rightarrow> Inl e
         | Inr new_state \<Rightarrow> Inr (visit_state new_state path vq))
      else Inr vq)"

text \<open>Action 3: wait, only at a full tank.\<close>

definition wait :: "PathFinder \<Rightarrow> SearchState \<Rightarrow> SearchState list
    \<Rightarrow> visited_map \<times> frontier \<Rightarrow> error + visited_map \<times> frontier" where
  "wait pf cur path vq =
     (if fuel cur = autonomy pf then
        (case new_SearchState (planet cur) (day cur + 1) (autonomy pf)
                (new_encounters pf cur (planet cur) (day cur + 1)) of
           Inl e \<Rightarrow> Inl e
         | Inr new_state \<Rightarrow> Inr (visit_state new_state path vq))
      else Inr vq)"

text \<open>The three actions in the order of the loop body.\<close>

definition expand :: "PathFinder \<Rightarrow> SearchState \<Rightarrow> SearchState list
    \<Rightarrow> visited_map \<times> frontier \<Rightarrow> error + visited_map \<times> frontier" where
  "expand pf cur path vq =
     (case travel pf cur path (get_neighbors (galaxy pf) (planet cur)) vq of
        Inl e \<Rightarrow> Inl e
      | Inr vq1 \<Rightarrow>
          (case refuel pf cur path vq1 of
             Inl e \<Rightarrow> Inl e
           | Inr vq2 \<Rightarrow> wait pf cur path vq2))"

text \<open>
  \<^verbatim>\<open>min_encounters\<close> starts as \<^verbatim>\<open>float('inf')\<close>, here \<open>None\<close>;
  \<open>below e m\<close> is the comparison \<^verbatim>\<open>e < min_encounters\<close>.
\<close>

definition below :: "int \<Rightarrow> int option \<Rightarrow> bool" where
  "below e m = (case m of None \<Rightarrow> True | Some b \<Rightarrow> e < b)"

text \<open>\<open>at_least e m\<close> is the comparison \<^verbatim>\<open>e >= min_encounters\<close>.\<close>

definition at_least :: "int \<Rightarrow> int option \<Rightarrow> bool" where
  "at_least e m = (case m of None \<Rightarrow> False | Some b \<Rightarrow> b \<le> e)"

subsection \<open>Termination of the search loop\<close>

text \<open>
  The loop ends on every input.  The keys \<open>(planet, day, fuel)\<close> that can still be stored
  in \<open>visited\<close> form a finite set: the planet is a node of the graph or the planet of a queued
  state, day and fuel are not negative (the state was validated), and their sum is bounded
  (travelling keeps \<open>day + fuel\<close>, refuelling and waiting start from a day within the countdown).
  Every iteration either stores a new key, or lowers the encounter count stored for a key, or
  only shortens the queue.
\<close>
definition key_space :: "string set \<Rightarrow> int \<Rightarrow> (string \<times> int \<times> int) set" where
  "key_space P B = {(p, d, f). p \<in> P \<and> 0 \<le> d \<and> 0 \<le> f \<and> d + f \<le> B}"

lemma finite_key_space: "finite P \<Longrightarrow> finite (key_space P B)"
proof -
  assume "finite P"
  then have "finite (P \<times> {0..B} \<times> {0..B})" by simp
  moreover have "key_space P B \<subseteq> P \<times> {0..B} \<times> {0..B}"
    by (auto simp: key_space_def)
  ultimately show ?thesis by (rule rev_finite_subset)
qed

lemma key_space_mono: "P' \<subseteq> P \<Longrightarrow> B' \<le> B \<Longrightarrow> key_space P' B' \<subseteq> key_space P B"
  by (auto simp: key_space_def)

definition unseen :: "(string \<times> int \<times> int) set \<Rightarrow> visited_map \<Rightarrow> nat" where
  "unseen K v = card (K - dom v)"

definition weight :: "(string \<times> int \<times> int) set \<Rightarrow> visited_map \<Rightarrow> nat" where
  "weight K v = (\<Sum>k\<in>K. case v k of None \<Rightarrow> 0 | Some e \<Rightarrow> nat e)"

lemma unseen_mono: "finite K \<Longrightarrow> K' \<subseteq> K \<Longrightarrow> unseen K' v \<le> unseen K v"
  unfolding unseen_def by (intro card_mono) auto

lemma weight_mono: "finite K \<Longrightarrow> K' \<subseteq> K \<Longrightarrow> weight K' v \<le> weight K v"
  unfolding weight_def by (intro sum_mono2) auto

lemma unseen_new:
  assumes "finite K" "k \<in> K" "v k = None"
  shows "unseen K (v(k \<mapsto> e)) < unseen K v"
proof -
  have "K - dom (v(k \<mapsto> e)) \<subset> K - dom v" using assms by auto
  then show ?thesis unfolding unseen_def
    by (intro psubset_card_mono) (use assms in auto)
qed

lemma unseen_same: "v k = Some old \<Longrightarrow> unseen K (v(k \<mapsto> e)) = unseen K v"
proof -
  assume "v k = Some old"
  then have "dom (v(k \<mapsto> e)) = dom v" by auto
  then show ?thesis by (simp add: unseen_def)
qed

lemma weight_better:
  assumes "finite K" "k \<in> K" "v k = Some old" "0 \<le> e" "e < old"
  shows "weight K (v(k \<mapsto> e)) < weight K v"
proof -
  let ?f = "\<lambda>w k. case w k of None \<Rightarrow> 0 | Some e \<Rightarrow> nat e"
  have a: "weight K v = ?f v k + (\<Sum>j\<in>K - {k}. ?f v j)"
    unfolding weight_def using assms(1,2) by (rule sum.remove)
  have b: "weight K (v(k \<mapsto> e)) = ?f (v(k \<mapsto> e)) k + (\<Sum>j\<in>K - {k}. ?f (v(k \<mapsto> e)) j)"
    unfolding weight_def using assms(1,2) by (rule sum.remove)
  have c: "(\<Sum>j\<in>K - {k}. ?f (v(k \<mapsto> e)) j) = (\<Sum>j\<in>K - {k}. ?f v j)"
    by (rule sum.cong) auto
  have "?f (v(k \<mapsto> e)) k < ?f v k" using assms by simp
  with a b c show ?thesis by linarith
qed

definition fits :: "string set \<Rightarrow> int \<Rightarrow> SearchState \<Rightarrow> bool" where
  "fits P B s = (planet s \<in> P \<and> day s + fuel s \<le> B)"

definition smaller :: "(string \<times> int \<times> int) set \<Rightarrow> visited_map \<Rightarrow> visited_map \<Rightarrow> bool" where
  "smaller K v' v = (unseen K v' < unseen K v \<or> unseen K v' = unseen K v \<and> weight K v' < weight K v)"

lemma smaller_trans: "smaller K a b \<Longrightarrow> smaller K b c \<Longrightarrow> smaller K a c"
  unfolding smaller_def by presburger

definition progress :: "string set \<Rightarrow> int \<Rightarrow> visited_map \<times> frontier \<Rightarrow> visited_map \<times> frontier \<Rightarrow> bool" where
  "progress P B vq vq' =
     ((\<forall>s \<in> fst ` set (snd vq'). s \<in> fst ` set (snd vq) \<or> fits P B s) \<and>
      (vq' = vq \<or> smaller (key_space P B) (fst vq') (fst vq)))"

lemma progress_refl: "progress P B vq vq"
  by (simp add: progress_def)

lemma progress_trans:
  assumes ab: "progress P B a b" and bc: "progress P B b c"
  shows "progress P B a c"
proof -
  from ab have a1: "\<forall>s \<in> fst ` set (snd b). s \<in> fst ` set (snd a) \<or> fits P B s"
    and a2: "b = a \<or> smaller (key_space P B) (fst b) (fst a)"
    by (simp_all add: progress_def)
  from bc have b1: "\<forall>s \<in> fst ` set (snd c). s \<in> fst ` set (snd b) \<or> fits P B s"
    and b2: "c = b \<or> smaller (key_space P B) (fst c) (fst b)"
    by (simp_all add: progress_def)
  from a1 b1 have c1: "\<forall>s \<in> fst ` set (snd c). s \<in> fst ` set (snd a) \<or> fits P B s"
    by blast
  have c2: "c = a \<or> smaller (key_space P B) (fst c) (fst a)"
  proof (cases "b = a")
    case True
    with b2 show ?thesis by simp
  next
    case False
    with a2 have ab': "smaller (key_space P B) (fst b) (fst a)" by simp
    show ?thesis
    proof (cases "c = b")
      case True
      with ab' show ?thesis by simp
    next
      case False
      with b2 have "smaller (key_space P B) (fst c) (fst b)" by simp
      from smaller_trans[OF this ab'] show ?thesis by simp
    qed
  qed
  from c1 c2 show ?thesis by (simp add: progress_def)
qed

lemma new_SearchState_Inr:
  "new_SearchState p d f e = Inr s \<Longrightarrow>
     planet s = p \<and> day s = d \<and> fuel s = f \<and> encounters s = e \<and> 0 \<le> d \<and> 0 \<le> f \<and> 0 \<le> e"
  by (auto simp: new_SearchState_def split: if_splits)

lemma visit_progress:
  assumes fin: "finite P" and new: "new_SearchState p d f e = Inr ns" and fit: "fits P B ns"
  shows "progress P B vq (visit_state ns path vq)"
proof (cases "should_visit ns (fst vq)")
  case False
  then show ?thesis by (simp add: visit_state_def progress_refl)
next
  case True
  let ?K = "key_space P B"
  let ?k = "(planet ns, day ns, fuel ns)"
  from new_SearchState_Inr[OF new] fit have k: "?k \<in> ?K" and e: "0 \<le> encounters ns"
    by (auto simp: key_space_def fits_def)
  have finK: "finite ?K" using fin by (rule finite_key_space)
  have "smaller ?K ((fst vq)(?k \<mapsto> encounters ns)) (fst vq)"
  proof (cases "fst vq ?k")
    case None
    then show ?thesis using unseen_new[OF finK k] by (simp add: smaller_def)
  next
    case (Some old)
    with True have "encounters ns < old" by (simp add: should_visit_def)
    have "weight ?K ((fst vq)(?k \<mapsto> encounters ns)) < weight ?K (fst vq)"
      using finK k Some e \<open>encounters ns < old\<close> by (rule weight_better)
    moreover have "unseen ?K ((fst vq)(?k \<mapsto> encounters ns)) = unseen ?K (fst vq)"
      using Some by (rule unseen_same)
    ultimately show ?thesis by (simp add: smaller_def)
  qed
  with True fit show ?thesis by (auto simp: visit_state_def progress_def)
qed

lemma travel_progress:
  assumes fin: "finite P" and cur: "day cur + fuel cur \<le> B"
  shows "fst ` set nbrs \<subseteq> P \<Longrightarrow> travel pf cur path nbrs vq = Inr vq' \<Longrightarrow> progress P B vq vq'"
proof (induction nbrs arbitrary: vq)
  case Nil
  then show ?case by (simp add: progress_refl)
next
  case (Cons a nbrs)
  obtain n t where a: "a = (n, t)" by (cases a)
  from Cons.prems(1) a have n: "n \<in> P" and rest: "fst ` set nbrs \<subseteq> P" by auto
  show ?case
  proof (cases "t \<le> fuel cur")
    case False
    with Cons.prems(2) a have "travel pf cur path nbrs vq = Inr vq'" by simp
    with rest show ?thesis by (rule Cons.IH)
  next
    case True
    with Cons.prems(2) a obtain ns where
      ns: "new_SearchState n (day cur + t) (fuel cur - t) (new_encounters pf cur n (day cur + t)) = Inr ns"
      and go: "travel pf cur path nbrs (visit_state ns path vq) = Inr vq'"
      by (auto split: sum.splits)
    from new_SearchState_Inr[OF ns] n cur have "fits P B ns" by (simp add: fits_def)
    from visit_progress[OF fin ns this] have "progress P B vq (visit_state ns path vq)" .
    moreover from rest go have "progress P B (visit_state ns path vq) vq'" by (rule Cons.IH)
    ultimately show ?thesis by (rule progress_trans)
  qed
qed

lemma refuel_progress:
  assumes fin: "finite P" and p: "planet cur \<in> P" and b: "day cur + 1 + autonomy pf \<le> B"
    and r: "refuel pf cur path vq = Inr vq'"
  shows "progress P B vq vq'"
proof (cases "fuel cur < autonomy pf")
  case False
  with r show ?thesis by (simp add: refuel_def progress_refl)
next
  case True
  with r obtain ns where
    ns: "new_SearchState (planet cur) (day cur + 1) (autonomy pf)
           (new_encounters pf cur (planet cur) (day cur + 1)) = Inr ns"
    and vq': "vq' = visit_state ns path vq"
    by (auto simp: refuel_def split: sum.splits)
  from new_SearchState_Inr[OF ns] p b have "fits P B ns" by (simp add: fits_def)
  from visit_progress[OF fin ns this] vq' show ?thesis by simp
qed

lemma wait_progress:
  assumes fin: "finite P" and p: "planet cur \<in> P" and b: "day cur + 1 + autonomy pf \<le> B"
    and r: "wait pf cur path vq = Inr vq'"
  shows "progress P B vq vq'"
proof (cases "fuel cur = autonomy pf")
  case False
  with r show ?thesis by (simp add: wait_def progress_refl)
next
  case True
  with r obtain ns where
    ns: "new_SearchState (planet cur) (day cur + 1) (autonomy pf)
           (new_encounters pf cur (planet cur) (day cur + 1)) = Inr ns"
    and vq': "vq' = visit_state ns path vq"
    by (auto simp: wait_def split: sum.splits)
  from new_SearchState_Inr[OF ns] p b have "fits P B ns" by (simp add: fits_def)
  from visit_progress[OF fin ns this] vq' show ?thesis by simp
qed

lemma expand_progress:
  assumes fin: "finite P" and p: "planet cur \<in> P" and nb: "nodes (galaxy pf) \<subseteq> P"
    and c: "day cur + fuel cur \<le> B" and b: "day cur + 1 + autonomy pf \<le> B"
    and r: "expand pf cur path vq = Inr vq'"
  shows "progress P B vq vq'"
proof -
  from r obtain vq1 vq2 where
    t: "travel pf cur path (get_neighbors (galaxy pf) (planet cur)) vq = Inr vq1"
    and f: "refuel pf cur path vq1 = Inr vq2"
    and w: "wait pf cur path vq2 = Inr vq'"
    by (auto simp: expand_def split: sum.splits)
  have "fst ` set (get_neighbors (galaxy pf) (planet cur)) \<subseteq> P"
    using get_neighbors_nodes nb by blast
  from travel_progress[OF fin c this t] have "progress P B vq vq1" .
  moreover from refuel_progress[OF fin p b f] have "progress P B vq1 vq2" .
  moreover from wait_progress[OF fin p b w] have "progress P B vq2 vq'" .
  ultimately show ?thesis by (blast intro: progress_trans)
qed


definition search_planets :: "PathFinder \<Rightarrow> frontier \<Rightarrow> string set" where
  "search_planets pf q = nodes (galaxy pf) \<union> planet ` fst ` set q"

definition search_bound :: "PathFinder \<Rightarrow> int \<Rightarrow> frontier \<Rightarrow> int" where
  "search_bound pf countdown q =
     Max (insert (countdown + 1 + autonomy pf) ((\<lambda>s. day s + fuel s) ` fst ` set q))"

definition search_keys :: "PathFinder \<Rightarrow> int \<Rightarrow> frontier \<Rightarrow> (string \<times> int \<times> int) set" where
  "search_keys pf countdown q = key_space (search_planets pf q) (search_bound pf countdown q)"

definition search_measure :: "PathFinder \<Rightarrow> int \<Rightarrow> frontier \<Rightarrow> visited_map \<Rightarrow> nat \<times> nat \<times> nat" where
  "search_measure pf countdown q v =
     (unseen (search_keys pf countdown q) v, weight (search_keys pf countdown q) v, length q)"

lemma finite_search_planets: "finite (search_planets pf q)"
  by (simp add: search_planets_def finite_nodes)

lemma search_bound_ge:
  "countdown + 1 + autonomy pf \<le> search_bound pf countdown q"
  "s \<in> fst ` set q \<Longrightarrow> day s + fuel s \<le> search_bound pf countdown q"
  unfolding search_bound_def by (auto intro!: Max_ge)

lemma search_bound_le:
  assumes "countdown + 1 + autonomy pf \<le> B" "\<forall>s \<in> fst ` set q. day s + fuel s \<le> B"
  shows "search_bound pf countdown q \<le> B"
  unfolding search_bound_def using assms by (subst Max_le_iff) auto

lemma search_keys_mono:
  assumes "\<forall>s \<in> fst ` set q'. s \<in> fst ` set q \<or>
             fits (search_planets pf q) (search_bound pf countdown q) s"
  shows "search_keys pf countdown q' \<subseteq> search_keys pf countdown q"
  unfolding search_keys_def
proof (rule key_space_mono)
  show "search_planets pf q' \<subseteq> search_planets pf q"
    using assms by (auto simp: search_planets_def fits_def)
  show "search_bound pf countdown q' \<le> search_bound pf countdown q"
  proof (rule search_bound_le)
    show "countdown + 1 + autonomy pf \<le> search_bound pf countdown q"
      by (rule search_bound_ge)
    show "\<forall>s \<in> fst ` set q'. day s + fuel s \<le> search_bound pf countdown q"
      using assms search_bound_ge(2)[of _ q pf countdown] by (auto simp: fits_def)
  qed
qed

definition search_order :: "((nat \<times> nat \<times> nat) \<times> (nat \<times> nat \<times> nat)) set" where
  "search_order = less_than <*lex*> less_than <*lex*> less_than"

lemma wf_search_order: "wf search_order"
  unfolding search_order_def by (intro wf_lex_prod wf_less_than)

lemma search_measure_pop:
  "(search_measure pf countdown q v, search_measure pf countdown (x # q) v) \<in> search_order"
proof -
  have sub: "search_keys pf countdown q \<subseteq> search_keys pf countdown (x # q)"
    by (rule search_keys_mono) simp
  have fin: "finite (search_keys pf countdown (x # q))"
    unfolding search_keys_def by (rule finite_key_space) (rule finite_search_planets)
  from unseen_mono[OF fin sub, of v] weight_mono[OF fin sub, of v]
  show ?thesis by (auto simp: search_measure_def search_order_def)
qed

lemma search_measure_expand:
  assumes late: "\<not> countdown < day cur"
    and ex: "expand pf cur path (v, q) = Inr (v', q')"
  shows "(search_measure pf countdown q' v', search_measure pf countdown ((cur, path) # q) v)
           \<in> search_order"
proof -
  let ?q0 = "(cur, path) # q"
  let ?P = "search_planets pf ?q0"
  let ?B = "search_bound pf countdown ?q0"
  let ?K = "search_keys pf countdown ?q0"
  have fin: "finite ?K"
    unfolding search_keys_def by (rule finite_key_space) (rule finite_search_planets)
  have p: "planet cur \<in> ?P" by (simp add: search_planets_def)
  have nb: "nodes (galaxy pf) \<subseteq> ?P" by (auto simp: search_planets_def)
  have c: "day cur + fuel cur \<le> ?B" by (rule search_bound_ge) simp
  have "countdown + 1 + autonomy pf \<le> ?B" by (rule search_bound_ge)
  with late have b: "day cur + 1 + autonomy pf \<le> ?B" by linarith
  from expand_progress[OF finite_search_planets p nb c b ex]
  have pr: "progress ?P ?B (v, q) (v', q')" .
  then have states: "\<forall>s \<in> fst ` set q'. s \<in> fst ` set ?q0 \<or> fits ?P ?B s"
    by (auto simp: progress_def)
  have sub: "search_keys pf countdown q' \<subseteq> ?K"
    using states by (rule search_keys_mono)
  from pr have "(v', q') = (v, q) \<or> smaller ?K v' v"
    by (simp add: progress_def search_keys_def)
  then show ?thesis
  proof
    assume "(v', q') = (v, q)"
    then show ?thesis using search_measure_pop[of pf countdown q v "(cur, path)"] by simp
  next
    assume sm: "smaller ?K v' v"
    from unseen_mono[OF fin sub, of v'] weight_mono[OF fin sub, of v'] sm
    show ?thesis by (auto simp: search_measure_def search_order_def smaller_def)
  qed
qed

text \<open>The \<^verbatim>\<open>while queue\<close> loop of \<^verbatim>\<open>find_min_encounters\<close>.\<close>

function search_loop :: "PathFinder \<Rightarrow> string \<Rightarrow> int \<Rightarrow> frontier \<Rightarrow> visited_map
    \<Rightarrow> int option \<Rightarrow> SearchState list option
    \<Rightarrow> error + int option \<times> SearchState list option" where
  "search_loop pf dest countdown [] visited min_encounters best_path =
     Inr (min_encounters, best_path)"
| "search_loop pf dest countdown ((current_state, path) # queue) visited min_encounters best_path =
     (if day current_state > countdown
        then search_loop pf dest countdown queue visited min_encounters best_path
      else if at_least (encounters current_state) min_encounters
        then search_loop pf dest countdown queue visited min_encounters best_path
      else if planet current_state = dest
        then (if below (encounters current_state) min_encounters
              then search_loop pf dest countdown queue visited
                     (Some (encounters current_state)) (Some path)
              else search_loop pf dest countdown queue visited min_encounters best_path)
      else (case expand pf current_state path (visited, queue) of
              Inl e \<Rightarrow> Inl e
            | Inr (visited', queue') \<Rightarrow>
                search_loop pf dest countdown queue' visited' min_encounters best_path))"
  by pat_completeness auto
termination
proof (relation "inv_image search_order
    (\<lambda>(pf, dest :: string, countdown, q, v, m :: int option, b :: SearchState list option).
       search_measure pf countdown q v)")
  show "wf (inv_image search_order
    (\<lambda>(pf, dest :: string, countdown, q, v, m :: int option, b :: SearchState list option).
       search_measure pf countdown q v))"
    by (intro wf_inv_image wf_search_order)
qed (simp_all add: search_measure_pop search_measure_expand)

text \<open>
  \<^verbatim>\<open>PathFinder.find_min_encounters\<close>.  The result \<^verbatim>\<open>(-1, None)\<close> is \<open>Inr (- 1, None)\<close>.
\<close>

definition find_min_encounters :: "PathFinder \<Rightarrow> string \<Rightarrow> string \<Rightarrow> int
    \<Rightarrow> error + int \<times> SearchState list option" where
  "find_min_encounters pf start dest countdown =
     (if \<not> has_planet (galaxy pf) start then Inl (StartNotFound start)
      else if \<not> has_planet (galaxy pf) dest then Inl (DestinationNotFound dest)
      else if \<not> is_connected (galaxy pf) start dest then Inr (- 1, None)
      else (case new_SearchState start 0 (autonomy pf) 0 of
              Inl e \<Rightarrow> Inl e
            | Inr initial_state \<Rightarrow>
                (case search_loop pf dest countdown [(initial_state, [initial_state])]
                        [(start, 0, autonomy pf) \<mapsto> 0] None None of
                   Inl e \<Rightarrow> Inl e
                 | Inr (min_encounters, best_path) \<Rightarrow>
                     (case min_encounters of
                        None \<Rightarrow> Inr (- 1, None)
                      | Some m \<Rightarrow> Inr (m, best_path)))))"

declare search_loop.simps [simp del]

section \<open>Example data\<close>

text \<open>Two routes that form two separate components: A - B and C - D.\<close>

definition route_AB :: Route where
  "route_AB = \<lparr>origin = ''A'', destination = ''B'', travel_time = 1\<rparr>"

definition route_CD :: Route where
  "route_CD = \<lparr>origin = ''C'', destination = ''D'', travel_time = 2\<rparr>"

definition galaxy_AB_CD :: Galaxy where
  "galaxy_AB_CD =
     \<lparr>adjacency = [(''A'', [(''B'', 1)]), (''B'', [(''A'', 1)]),
                   (''C'', [(''D'', 2)]), (''D'', [(''C'', 2)])],
      planets = {''A'', ''B'', ''C'', ''D''}\<rparr>"

lemma Galaxy_init_AB_CD: "Galaxy_init [route_AB, route_CD] = Inr galaxy_AB_CD"
  by (simp add: Galaxy_init_def add_route_def route_AB_def route_CD_def galaxy_AB_CD_def insert_commute)

lemma not_connected_A_C: "\<not> is_connected galaxy_AB_CD ''A'' ''C''"
  by (simp add: is_connected_def has_planet_def galaxy_AB_CD_def get_neighbors_def)

lemma connected_A_B: "is_connected galaxy_AB_CD ''A'' ''B''"
  by (simp add: is_connected_def has_planet_def galaxy_AB_CD_def get_neighbors_def)

section \<open>Properties of the path finder\<close>

text \<open>
  C2: if start and destination both exist in the graph and \<open>is_connected\<close> is false, then
  \<open>find_min_encounters\<close> returns \<^verbatim>\<open>(-1, None)\<close> for every countdown (and every autonomy and
  schedule), and raises nothing.
\<close>

theorem C2_unconnected:
  assumes "has_planet (galaxy pf) start" "has_planet (galaxy pf) dest"
    and "\<not> is_connected (galaxy pf) start dest"
  shows "find_min_encounters pf start dest countdown = Inr (- 1, None)"
  using assms by (simp add: find_min_encounters_def)


text \<open>C2 at the two-component galaxy, from A to C.\<close>

theorem C2_unconnected_witness:
  "has_planet galaxy_AB_CD ''A'' \<and> has_planet galaxy_AB_CD ''C'' \<and>
   \<not> is_connected galaxy_AB_CD ''A'' ''C'' \<and>
   find_min_encounters \<lparr>galaxy = galaxy_AB_CD, autonomy = 3, bounty_hunter_schedule = Map.empty\<rparr>
     ''A'' ''C'' 7 = Inr (- 1, None)"
proof -
  let ?pf = "\<lparr>galaxy = galaxy_AB_CD, autonomy = 3, bounty_hunter_schedule = Map.empty\<rparr>"
  have a: "has_planet (galaxy ?pf) ''A''" by (simp add: has_planet_def galaxy_AB_CD_def)
  have c: "has_planet (galaxy ?pf) ''C''" by (simp add: has_planet_def galaxy_AB_CD_def)
  have n: "\<not> is_connected (galaxy ?pf) ''A'' ''C''" using not_connected_A_C by simp
  from C2_unconnected[OF a c n, of 7] a c n show ?thesis by simp
qed

text \<open>
  The two failures raised for an unknown start or destination, as opposed to the failures of
  the state validation.
\<close>

fun unknown_location :: "error \<Rightarrow> bool" where
  "unknown_location (StartNotFound _) = True"
| "unknown_location (DestinationNotFound _) = True"
| "unknown_location _ = False"

lemma new_SearchState_Inl: "new_SearchState p d f e = Inl x \<Longrightarrow> \<not> unknown_location x"
  by (auto simp: new_SearchState_def split: if_splits)

lemma travel_Inl: "travel pf cur path nbrs vq = Inl x \<Longrightarrow> \<not> unknown_location x"
proof (induction nbrs arbitrary: vq)
  case Nil
  then show ?case by simp
next
  case (Cons a nbrs)
  obtain n t where a: "a = (n, t)" by (cases a)
  from Cons.prems a show ?case
    by (auto split: if_splits sum.splits dest: new_SearchState_Inl Cons.IH)
qed

lemma refuel_Inl: "refuel pf cur path vq = Inl x \<Longrightarrow> \<not> unknown_location x"
  by (auto simp: refuel_def split: if_splits sum.splits dest: new_SearchState_Inl)

lemma wait_Inl: "wait pf cur path vq = Inl x \<Longrightarrow> \<not> unknown_location x"
  by (auto simp: wait_def split: if_splits sum.splits dest: new_SearchState_Inl)

lemma expand_Inl: "expand pf cur path vq = Inl x \<Longrightarrow> \<not> unknown_location x"
  by (auto simp: expand_def split: sum.splits dest: travel_Inl refuel_Inl wait_Inl)

lemma search_loop_Inl:
  "search_loop pf dest countdown q v m b = Inl x \<Longrightarrow> \<not> unknown_location x"
proof (induction pf dest countdown q v m b rule: search_loop.induct)
  case (1 pf dest countdown visited min_encounters best_path)
  then show ?case by (simp add: search_loop.simps)
next
  case (2 pf dest countdown cur path queue visited min_encounters best_path)
  show ?case
  proof (cases "expand pf cur path (visited, queue)")
    case (Inl e)
    with "2.prems" "2.IH"(1,2,3,4) expand_Inl[OF Inl] show ?thesis
      by (auto simp: search_loop.simps split: if_splits)
  next
    case (Inr vq)
    obtain v' q' where vq: "vq = (v', q')" by (cases vq)
    with "2.prems" "2.IH" Inr show ?thesis
      by (auto simp: search_loop.simps split: if_splits)
  qed
qed

text \<open>
  C6: \<open>find_min_encounters\<close> fails with an unknown-location error if and only if the start or
  the destination is absent from the graph; the check comes first, so the failure is decided by
  the two membership tests alone (start before destination), whatever the autonomy, the
  schedule and the countdown are.
\<close>

theorem C6_unknown_location:
  "((\<exists>e. find_min_encounters pf start dest countdown = Inl e \<and> unknown_location e)
      \<longleftrightarrow> (\<not> has_planet (galaxy pf) start \<or> \<not> has_planet (galaxy pf) dest))
   \<and> (\<not> has_planet (galaxy pf) start
        \<longrightarrow> find_min_encounters pf start dest countdown = Inl (StartNotFound start))
   \<and> (has_planet (galaxy pf) start \<and> \<not> has_planet (galaxy pf) dest
        \<longrightarrow> find_min_encounters pf start dest countdown = Inl (DestinationNotFound dest))"
proof -
  have known: "\<not> unknown_location e"
    if "has_planet (galaxy pf) start" "has_planet (galaxy pf) dest"
      and "find_min_encounters pf start dest countdown = Inl e" for e
    using that
    by (auto simp: find_min_encounters_def
        split: if_splits sum.splits option.splits prod.splits
        dest: new_SearchState_Inl search_loop_Inl)
  have absent: "\<exists>e. find_min_encounters pf start dest countdown = Inl e \<and> unknown_location e"
    if "\<not> has_planet (galaxy pf) start \<or> \<not> has_planet (galaxy pf) dest"
    using that by (auto simp: find_min_encounters_def)
  from known absent show ?thesis
    by (auto simp: find_min_encounters_def)
qed

text \<open>C6 at the two-component galaxy: X is unknown, A and C are known.\<close>

theorem C6_unknown_location_witness:
  "\<not> has_planet galaxy_AB_CD ''X'' \<and> has_planet galaxy_AB_CD ''A'' \<and>
   find_min_encounters \<lparr>galaxy = galaxy_AB_CD, autonomy = 3, bounty_hunter_schedule = Map.empty\<rparr>
     ''X'' ''A'' 7 = Inl (StartNotFound ''X'') \<and>
   find_min_encounters \<lparr>galaxy = galaxy_AB_CD, autonomy = 3, bounty_hunter_schedule = Map.empty\<rparr>
     ''A'' ''X'' 7 = Inl (DestinationNotFound ''X'')"
proof -
  let ?pf = "\<lparr>galaxy = galaxy_AB_CD, autonomy = 3, bounty_hunter_schedule = Map.empty\<rparr>"
  have x: "\<not> has_planet (galaxy ?pf) ''X''" by (simp add: has_planet_def galaxy_AB_CD_def)
  have a: "has_planet (galaxy ?pf) ''A''" by (simp add: has_planet_def galaxy_AB_CD_def)
  from C6_unknown_location[of ?pf "''X''" "''A''" 7] C6_unknown_location[of ?pf "''A''" "''X''" 7] x a
  show ?thesis by simp
qed

section \<open>Properties of the galaxy graph\<close>

text \<open>
  C7 as stated (no precondition on the location) fails: a planet that is not in the graph is
  not connected to itself, because \<open>is_connected\<close> tests \<open>has_planet\<close> on both arguments
  before it compares them.
\<close>

theorem C7_self_connected_counterexample:
  "\<not> is_connected galaxy_AB_CD ''X'' ''X''"
  by (simp add: is_connected_def has_planet_def galaxy_AB_CD_def)

text \<open>
  C7, amended: \<open>is_connected a a\<close> is true exactly when \<open>a\<close> exists in the graph.
\<close>

theorem C7_self_connected: "is_connected g a a = has_planet g a"
  by (simp add: is_connected_def)

text \<open>C7 (amended) at planet A of the two-component galaxy.\<close>

theorem C7_self_connected_witness:
  "has_planet galaxy_AB_CD ''A'' \<and> is_connected galaxy_AB_CD ''A'' ''A''"
  using C7_self_connected[of galaxy_AB_CD "''A''"]
  by (simp add: has_planet_def galaxy_AB_CD_def)

text \<open>
  C8: building a galaxy from the empty list of routes fails (\<open>NoRoutes\<close>, an invalid-input
  error), and building it from any non-empty list of routes succeeds.
\<close>

theorem C8_construction:
  "Galaxy_init [] = Inl NoRoutes \<and> (routes \<noteq> [] \<longrightarrow> (\<exists>g. Galaxy_init routes = Inr g))"
  by (simp add: Galaxy_init_def)

text \<open>C8 at the two valid routes A - B and C - D.\<close>

theorem C8_construction_witness:
  "[route_AB, route_CD] \<noteq> [] \<and> Galaxy_init [route_AB, route_CD] = Inr galaxy_AB_CD \<and>
   valid_route route_AB \<and> valid_route route_CD"
  using C8_construction[of "[route_AB, route_CD]"] Galaxy_init_AB_CD
  by (simp add: valid_route_def Route_post_init_def route_AB_def route_CD_def)

lemma map_of_adj_append:
  "map_of (adj_append k x adj) k' =
     (if k' = k then Some ((case map_of adj k of None \<Rightarrow> [] | Some l \<Rightarrow> l) @ [x])
      else map_of adj k')"
  by (induction adj) auto

lemma get_neighbors_add_route:
  "get_neighbors (add_route g r) p =
     get_neighbors g p
       @ (if p = origin r then [(destination r, travel_time r)] else [])
       @ (if p = destination r then [(origin r, travel_time r)] else [])"
  by (simp add: get_neighbors_def add_route_def map_of_adj_append split: option.splits)

lemma get_neighbors_foldl_mono:
  "set (get_neighbors g p) \<subseteq> set (get_neighbors (foldl add_route g routes) p)"
proof (induction routes arbitrary: g)
  case Nil
  then show ?case by simp
next
  case (Cons r routes)
  have "set (get_neighbors g p) \<subseteq> set (get_neighbors (add_route g r) p)"
    by (simp add: get_neighbors_add_route)
  also have "\<dots> \<subseteq> set (get_neighbors (foldl add_route (add_route g r) routes) p)"
    by (rule Cons.IH)
  finally show ?case by simp
qed

lemma get_neighbors_foldl_route:
  "r \<in> set routes \<Longrightarrow>
     (destination r, travel_time r) \<in> set (get_neighbors (foldl add_route g routes) (origin r)) \<and>
     (origin r, travel_time r) \<in> set (get_neighbors (foldl add_route g routes) (destination r))"
proof (induction routes arbitrary: g)
  case Nil
  then show ?case by simp
next
  case (Cons a routes)
  show ?case
  proof (cases "r = a")
    case True
    have "(destination r, travel_time r) \<in> set (get_neighbors (add_route g r) (origin r))"
      and "(origin r, travel_time r) \<in> set (get_neighbors (add_route g r) (destination r))"
      by (simp_all add: get_neighbors_add_route)
    with True get_neighbors_foldl_mono[of "add_route g r" _ routes] show ?thesis
      by auto
  next
    case False
    with Cons.prems have "r \<in> set routes" by simp
    from Cons.IH[OF this, of "add_route g a"] show ?thesis by simp
  qed
qed

text \<open>
  C9: after construction, every input route \<open>(origin, destination, travel_time)\<close> appears in
  both directions: \<open>(destination, travel_time)\<close> among the neighbours of \<open>origin\<close> and
  \<open>(origin, travel_time)\<close> among the neighbours of \<open>destination\<close>.
\<close>

theorem C9_bidirectional:
  assumes "Galaxy_init routes = Inr g" and "r \<in> set routes"
  shows "(destination r, travel_time r) \<in> set (get_neighbors g (origin r)) \<and>
         (origin r, travel_time r) \<in> set (get_neighbors g (destination r))"
proof -
  from assms(1) have "g = foldl add_route \<lparr>adjacency = [], planets = {}\<rparr> routes"
    by (simp add: Galaxy_init_def split: if_splits)
  with get_neighbors_foldl_route[OF assms(2)] show ?thesis by simp
qed

text \<open>C9 at the route C - D of the two-component galaxy.\<close>

theorem C9_bidirectional_witness:
  "Galaxy_init [route_AB, route_CD] = Inr galaxy_AB_CD \<and> route_CD \<in> set [route_AB, route_CD] \<and>
   (''D'', 2) \<in> set (get_neighbors galaxy_AB_CD ''C'') \<and>
   (''C'', 2) \<in> set (get_neighbors galaxy_AB_CD ''D'')"
proof -
  have r: "route_CD \<in> set [route_AB, route_CD]" by simp
  from C9_bidirectional[OF Galaxy_init_AB_CD r] Galaxy_init_AB_CD r
  show ?thesis by (simp add: route_CD_def)
qed

section \<open>The paths built by the search\<close>

text \<open>
  One action of the loop body, as a relation between the expanded state and a successor:
  a jump to a neighbour within the fuel, or a day spent on the planet (refuel below a full
  tank, wait at a full tank), each followed by the validation of the new state.
\<close>

definition travel_step :: "PathFinder \<Rightarrow> SearchState \<Rightarrow> SearchState \<Rightarrow> bool" where
  "travel_step pf s s' =
     (\<exists>nt \<in> set (get_neighbors (galaxy pf) (planet s)).
        snd nt \<le> fuel s \<and>
        new_SearchState (fst nt) (day s + snd nt) (fuel s - snd nt)
          (new_encounters pf s (fst nt) (day s + snd nt)) = Inr s')"

definition stay_step :: "PathFinder \<Rightarrow> SearchState \<Rightarrow> SearchState \<Rightarrow> bool" where
  "stay_step pf s s' =
     (fuel s \<le> autonomy pf \<and>
      new_SearchState (planet s) (day s + 1) (autonomy pf)
        (new_encounters pf s (planet s) (day s + 1)) = Inr s')"

definition step :: "PathFinder \<Rightarrow> SearchState \<Rightarrow> SearchState \<Rightarrow> bool" where
  "step pf s s' = (travel_step pf s s' \<or> stay_step pf s s')"

text \<open>A list of states in which each state follows from the one before by one action.\<close>

fun chain :: "PathFinder \<Rightarrow> SearchState list \<Rightarrow> bool" where
  "chain pf (a # b # rest) = (step pf a b \<and> chain pf (b # rest))"
| "chain pf _ = True"

lemma chain_append:
  "chain pf p \<Longrightarrow> p \<noteq> [] \<Longrightarrow> step pf (last p) ns \<Longrightarrow> chain pf (p @ [ns])"
  by (induction pf p rule: chain.induct) auto

text \<open>
  \<open>grows R path q q'\<close>: the queue \<open>q'\<close> is \<open>q\<close> with entries appended, each a state that
  satisfies \<open>R\<close> together with \<open>path\<close> extended by that state.
\<close>

definition grows :: "(SearchState \<Rightarrow> bool) \<Rightarrow> SearchState list \<Rightarrow> frontier \<Rightarrow> frontier \<Rightarrow> bool" where
  "grows R path q q' =
     (\<exists>news. q' = q @ news \<and> (\<forall>e \<in> set news. R (fst e) \<and> snd e = path @ [fst e]))"

lemma grows_refl: "grows R path q q"
  by (auto simp: grows_def)

lemma grows_trans: "grows R path q q' \<Longrightarrow> grows R path q' q'' \<Longrightarrow> grows R path q q''"
proof -
  assume "grows R path q q'" "grows R path q' q''"
  then obtain n1 n2 where 1: "q' = q @ n1" "\<forall>e \<in> set n1. R (fst e) \<and> snd e = path @ [fst e]"
    and 2: "q'' = q' @ n2" "\<forall>e \<in> set n2. R (fst e) \<and> snd e = path @ [fst e]"
    unfolding grows_def by blast
  then have "q'' = q @ (n1 @ n2)" "\<forall>e \<in> set (n1 @ n2). R (fst e) \<and> snd e = path @ [fst e]"
    by auto
  then show ?thesis unfolding grows_def by blast
qed

lemma grows_visit: "R ns \<Longrightarrow> grows R path (snd vq) (snd (visit_state ns path vq))"
proof (cases "should_visit ns (fst vq)")
  case True
  assume "R ns"
  then have "snd (visit_state ns path vq) = snd vq @ [(ns, path @ [ns])] \<and>
             (\<forall>e \<in> set [(ns, path @ [ns])]. R (fst e) \<and> snd e = path @ [fst e])"
    using True by (simp add: visit_state_def)
  then show ?thesis unfolding grows_def by blast
next
  case False
  then show ?thesis by (simp add: visit_state_def grows_refl)
qed

lemma travel_grows:
  "set nbrs \<subseteq> set (get_neighbors (galaxy pf) (planet cur)) \<Longrightarrow>
   travel pf cur path nbrs vq = Inr vq' \<Longrightarrow> grows (step pf cur) path (snd vq) (snd vq')"
proof (induction nbrs arbitrary: vq)
  case Nil
  then show ?case by (simp add: grows_refl)
next
  case (Cons a nbrs)
  obtain n t where a: "a = (n, t)" by (cases a)
  from Cons.prems(1) a have mem: "(n, t) \<in> set (get_neighbors (galaxy pf) (planet cur))"
    and rest: "set nbrs \<subseteq> set (get_neighbors (galaxy pf) (planet cur))" by auto
  show ?case
  proof (cases "t \<le> fuel cur")
    case False
    with Cons.prems(2) a have "travel pf cur path nbrs vq = Inr vq'" by simp
    with rest show ?thesis by (rule Cons.IH)
  next
    case True
    with Cons.prems(2) a obtain ns where
      ns: "new_SearchState n (day cur + t) (fuel cur - t) (new_encounters pf cur n (day cur + t)) = Inr ns"
      and go: "travel pf cur path nbrs (visit_state ns path vq) = Inr vq'"
      by (auto split: sum.splits)
    from mem True ns have "travel_step pf cur ns"
      unfolding travel_step_def by force
    then have "step pf cur ns" by (simp add: step_def)
    then have "grows (step pf cur) path (snd vq) (snd (visit_state ns path vq))"
      by (rule grows_visit)
    moreover from rest go have "grows (step pf cur) path (snd (visit_state ns path vq)) (snd vq')"
      by (rule Cons.IH)
    ultimately show ?thesis by (rule grows_trans)
  qed
qed

lemma refuel_grows:
  assumes "refuel pf cur path vq = Inr vq'"
  shows "grows (step pf cur) path (snd vq) (snd vq')"
proof (cases "fuel cur < autonomy pf")
  case False
  with assms show ?thesis by (simp add: refuel_def grows_refl)
next
  case True
  with assms obtain ns where
    ns: "new_SearchState (planet cur) (day cur + 1) (autonomy pf)
           (new_encounters pf cur (planet cur) (day cur + 1)) = Inr ns"
    and vq': "vq' = visit_state ns path vq"
    by (auto simp: refuel_def split: sum.splits)
  from True ns have "step pf cur ns" by (simp add: step_def stay_step_def)
  with vq' show ?thesis by (simp add: grows_visit)
qed

lemma wait_grows:
  assumes "wait pf cur path vq = Inr vq'"
  shows "grows (step pf cur) path (snd vq) (snd vq')"
proof (cases "fuel cur = autonomy pf")
  case False
  with assms show ?thesis by (simp add: wait_def grows_refl)
next
  case True
  with assms obtain ns where
    ns: "new_SearchState (planet cur) (day cur + 1) (autonomy pf)
           (new_encounters pf cur (planet cur) (day cur + 1)) = Inr ns"
    and vq': "vq' = visit_state ns path vq"
    by (auto simp: wait_def split: sum.splits)
  from True ns have "step pf cur ns" by (simp add: step_def stay_step_def)
  with vq' show ?thesis by (simp add: grows_visit)
qed

lemma expand_grows:
  assumes "expand pf cur path vq = Inr vq'"
  shows "grows (step pf cur) path (snd vq) (snd vq')"
proof -
  from assms obtain vq1 vq2 where
    t: "travel pf cur path (get_neighbors (galaxy pf) (planet cur)) vq = Inr vq1"
    and f: "refuel pf cur path vq1 = Inr vq2"
    and w: "wait pf cur path vq2 = Inr vq'"
    by (auto simp: expand_def split: sum.splits)
  have "grows (step pf cur) path (snd vq) (snd vq1)"
    using _ t by (rule travel_grows) simp
  moreover have "grows (step pf cur) path (snd vq1) (snd vq2)" using f by (rule refuel_grows)
  moreover have "grows (step pf cur) path (snd vq2) (snd vq')" using w by (rule wait_grows)
  ultimately show ?thesis by (blast intro: grows_trans)
qed

text \<open>
  The invariant of the queue entries, and of the best result so far.
\<close>

definition entry_ok :: "PathFinder \<Rightarrow> SearchState \<Rightarrow> SearchState \<times> SearchState list \<Rightarrow> bool" where
  "entry_ok pf init e =
     (snd e \<noteq> [] \<and> hd (snd e) = init \<and> last (snd e) = fst e \<and> chain pf (snd e))"

definition best_ok :: "PathFinder \<Rightarrow> SearchState \<Rightarrow> string \<Rightarrow> int \<Rightarrow> int option
    \<Rightarrow> SearchState list option \<Rightarrow> bool" where
  "best_ok pf init dest countdown m b =
     (case m of
        None \<Rightarrow> b = None
      | Some e \<Rightarrow>
          (\<exists>p. b = Some p \<and> entry_ok pf init (last p, p) \<and> planet (last p) = dest \<and>
               day (last p) \<le> countdown \<and> encounters (last p) = e))"

lemma expand_entries_ok:
  assumes cur: "entry_ok pf init (cur, path)" and q: "\<forall>e \<in> set q. entry_ok pf init e"
    and ex: "expand pf cur path (v, q) = Inr (v', q')"
  shows "\<forall>e \<in> set q'. entry_ok pf init e"
proof -
  from expand_grows[OF ex] obtain news where
    q': "q' = q @ news" and news: "\<forall>e \<in> set news. step pf cur (fst e) \<and> snd e = path @ [fst e]"
    by (auto simp: grows_def)
  have "entry_ok pf init e" if "e \<in> set news" for e
  proof -
    from news that have st: "step pf cur (fst e)" and p: "snd e = path @ [fst e]" by auto
    from cur have "path \<noteq> []" "hd path = init" "last path = cur" "chain pf path"
      by (simp_all add: entry_ok_def)
    with st p chain_append[of pf path "fst e"] show ?thesis
      by (simp add: entry_ok_def)
  qed
  with q q' show ?thesis by auto
qed

lemma search_loop_best_ok:
  "\<forall>e \<in> set q. entry_ok pf init e \<Longrightarrow> best_ok pf init dest countdown m b \<Longrightarrow>
   search_loop pf dest countdown q v m b = Inr (m', b') \<Longrightarrow>
   best_ok pf init dest countdown m' b'"
proof (induction pf dest countdown q v m b rule: search_loop.induct)
  case (1 pf dest countdown visited min_encounters best_path)
  then show ?case by (simp add: search_loop.simps)
next
  case (2 pf dest countdown cur path queue visited min_encounters best_path)
  from "2.prems"(1) have cur: "entry_ok pf init (cur, path)"
    and rest: "\<forall>e \<in> set queue. entry_ok pf init e" by simp_all
  note run = "2.prems"(3)
  show ?case
  proof (cases "countdown < day cur")
    case True
    with run have "search_loop pf dest countdown queue visited min_encounters best_path = Inr (m', b')"
      by (simp add: search_loop.simps)
    from "2.IH"(1)[OF True rest "2.prems"(2) this] show ?thesis .
  next
    case late: False
    show ?thesis
    proof (cases "at_least (encounters cur) min_encounters")
      case True
      with late run
      have "search_loop pf dest countdown queue visited min_encounters best_path = Inr (m', b')"
        by (simp add: search_loop.simps)
      from "2.IH"(2)[OF late True rest "2.prems"(2) this] show ?thesis .
    next
      case worse: False
      show ?thesis
      proof (cases "planet cur = dest")
        case atdest: True
        show ?thesis
        proof (cases "below (encounters cur) min_encounters")
          case True
          with late worse atdest run
          have r: "search_loop pf dest countdown queue visited (Some (encounters cur)) (Some path)
                  = Inr (m', b')"
            by (simp add: search_loop.simps)
          from cur late atdest
          have "best_ok pf init dest countdown (Some (encounters cur)) (Some path)"
            by (simp add: best_ok_def entry_ok_def)
          from "2.IH"(3)[OF late worse atdest True rest this r] show ?thesis .
        next
          case False
          with late worse atdest run
          have "search_loop pf dest countdown queue visited min_encounters best_path = Inr (m', b')"
            by (simp add: search_loop.simps)
          from "2.IH"(4)[OF late worse atdest False rest "2.prems"(2) this] show ?thesis .
        qed
      next
        case away: False
        with late worse run obtain vq where
          ex: "expand pf cur path (visited, queue) = Inr vq"
          by (auto simp: search_loop.simps split: sum.splits)
        obtain v' q' where vq: "vq = (v', q')" by (cases vq)
        with late worse away run ex
        have r: "search_loop pf dest countdown q' v' min_encounters best_path = Inr (m', b')"
          by (simp add: search_loop.simps)
        from ex vq have ex': "expand pf cur path (visited, queue) = Inr (v', q')" by simp
        from expand_entries_ok[OF cur rest ex'] have "\<forall>e \<in> set q'. entry_ok pf init e" .
        from "2.IH"(5)[OF late worse away ex vq[symmetric] this "2.prems"(2) r] show ?thesis .
      qed
    qed
  qed
qed


text \<open>A path finder on the two-component galaxy, with bounty hunters on B on day 1.\<close>

definition finder_AB :: PathFinder where
  "finder_AB = \<lparr>galaxy = galaxy_AB_CD, autonomy = 3, bounty_hunter_schedule = [''B'' \<mapsto> {1}]\<rparr>"

lemma run_AB_2:
  "find_min_encounters finder_AB ''A'' ''B'' 2 =
     Inr (0, Some [\<lparr>planet = ''A'', day = 0, fuel = 3, encounters = 0\<rparr>,
                   \<lparr>planet = ''A'', day = 1, fuel = 3, encounters = 0\<rparr>,
                   \<lparr>planet = ''B'', day = 2, fuel = 2, encounters = 0\<rparr>])"
  by (simp add: find_min_encounters_def finder_AB_def galaxy_AB_CD_def has_planet_def
      is_connected_def get_neighbors_def new_SearchState_def search_loop.simps expand_def
      refuel_def wait_def visit_state_def should_visit_def new_encounters_def
      has_bounty_hunters_def below_def at_least_def)

lemma run_AB_1:
  "find_min_encounters finder_AB ''A'' ''B'' 1 =
     Inr (1, Some [\<lparr>planet = ''A'', day = 0, fuel = 3, encounters = 0\<rparr>,
                   \<lparr>planet = ''B'', day = 1, fuel = 2, encounters = 1\<rparr>])"
  by (simp add: find_min_encounters_def finder_AB_def galaxy_AB_CD_def has_planet_def
      is_connected_def get_neighbors_def new_SearchState_def search_loop.simps expand_def
      refuel_def wait_def visit_state_def should_visit_def new_encounters_def
      has_bounty_hunters_def below_def at_least_def)


lemma find_min_encounters_best:
  assumes r: "find_min_encounters pf start dest countdown = Inr (e, p)" and e: "e \<noteq> - 1"
  shows "best_ok pf \<lparr>planet = start, day = 0, fuel = autonomy pf, encounters = 0\<rparr>
           dest countdown (Some e) p"
proof -
  let ?init = "\<lparr>planet = start, day = 0, fuel = autonomy pf, encounters = 0\<rparr>"
  from r e have new: "new_SearchState start 0 (autonomy pf) 0 = Inr ?init"
    by (auto simp: find_min_encounters_def new_SearchState_def split: if_splits)
  with r e obtain m b where
    loop: "search_loop pf dest countdown [(?init, [?init])] [(start, 0, autonomy pf) \<mapsto> 0]
             None None = Inr (m, b)"
    and res: "(case m of None \<Rightarrow> Inr (- 1, None) | Some x \<Rightarrow> Inr (x, b)) = (Inr (e, p) :: error + _)"
    by (auto simp: find_min_encounters_def split: if_splits sum.splits prod.splits)
  from res e have m: "m = Some e" and b: "b = p" by (auto split: option.splits)
  have "\<forall>x \<in> set [(?init, [?init])]. entry_ok pf ?init x" by (simp add: entry_ok_def)
  moreover have "best_ok pf ?init dest countdown None None" by (simp add: best_ok_def)
  ultimately have "best_ok pf ?init dest countdown m b"
    using loop by (rule search_loop_best_ok)
  with m b show ?thesis by simp
qed

text \<open>
  C1: if \<open>find_min_encounters\<close> returns a result whose encounter count is not \<open>-1\<close>, the
  returned path is not empty, its first state is \<open>(start, day 0, fuel = autonomy, encounters 0)\<close>,
  its last state is on the destination, and the day of the last state is at most the countdown.
  (It holds for every graph, schedule, autonomy and countdown, valid or not.)
\<close>

theorem C1_path_endpoints:
  assumes "find_min_encounters pf start dest countdown = Inr (e, p)" and "e \<noteq> - 1"
  shows "\<exists>path. p = Some path \<and> path \<noteq> [] \<and>
           hd path = \<lparr>planet = start, day = 0, fuel = autonomy pf, encounters = 0\<rparr> \<and>
           planet (last path) = dest \<and> day (last path) \<le> countdown"
  using find_min_encounters_best[OF assms] by (auto simp: best_ok_def entry_ok_def)

text \<open>C1 at the run from A to B with countdown 2 (bounty hunters on B on day 1).\<close>

theorem C1_path_endpoints_witness:
  "find_min_encounters finder_AB ''A'' ''B'' 2 =
     Inr (0, Some [\<lparr>planet = ''A'', day = 0, fuel = 3, encounters = 0\<rparr>,
                   \<lparr>planet = ''A'', day = 1, fuel = 3, encounters = 0\<rparr>,
                   \<lparr>planet = ''B'', day = 2, fuel = 2, encounters = 0\<rparr>]) \<and>
   (0 :: int) \<noteq> - 1 \<and>
   hd [\<lparr>planet = ''A'', day = 0, fuel = 3, encounters = 0\<rparr>,
       \<lparr>planet = ''A'', day = 1, fuel = 3, encounters = 0\<rparr>,
       \<lparr>planet = ''B'', day = 2, fuel = 2, encounters = 0\<rparr>]
     = \<lparr>planet = ''A'', day = 0, fuel = autonomy finder_AB, encounters = 0\<rparr> \<and>
   planet (last [\<lparr>planet = ''A'', day = 0, fuel = 3, encounters = 0\<rparr>,
                 \<lparr>planet = ''A'', day = 1, fuel = 3, encounters = 0\<rparr>,
                 \<lparr>planet = ''B'', day = 2, fuel = 2, encounters = 0\<rparr>]) = ''B'' \<and>
   day (last [\<lparr>planet = ''A'', day = 0, fuel = 3, encounters = 0\<rparr>,
              \<lparr>planet = ''A'', day = 1, fuel = 3, encounters = 0\<rparr>,
              \<lparr>planet = ''B'', day = 2, fuel = 2, encounters = 0\<rparr>]) \<le> 2"
proof -
  have ne: "(0 :: int) \<noteq> - 1" by simp
  from C1_path_endpoints[OF run_AB_2 ne] run_AB_2 ne show ?thesis by auto
qed

lemma step_encounters:
  "step pf s s' \<Longrightarrow> encounters s' = encounters s \<or> encounters s' = encounters s + 1"
  by (auto simp: step_def travel_step_def stay_step_def new_encounters_def
      dest!: new_SearchState_Inr split: if_splits)

lemma chain_encounters:
  "chain pf p \<Longrightarrow> Suc i < length p \<Longrightarrow>
     encounters (p ! Suc i) = encounters (p ! i) \<or> encounters (p ! Suc i) = encounters (p ! i) + 1"
proof (induction pf p arbitrary: i rule: chain.induct)
  case (1 pf a b rest)
  show ?case
  proof (cases i)
    case 0
    with "1.prems" step_encounters[of pf a b] show ?thesis by simp
  next
    case (Suc j)
    with "1.prems" "1.IH"[of j] show ?thesis by simp
  qed
qed simp_all

text \<open>
  C5: along the path of every result other than \<open>-1\<close>, the encounter count of a state is the
  count of the state before it, or that count plus one; it never decreases.
\<close>

theorem C5_encounters_monotone:
  assumes "find_min_encounters pf start dest countdown = Inr (e, p)" and "e \<noteq> - 1"
  shows "\<exists>path. p = Some path \<and>
           (\<forall>i. Suc i < length path \<longrightarrow>
                  encounters (path ! Suc i) = encounters (path ! i) \<or>
                  encounters (path ! Suc i) = encounters (path ! i) + 1)"
proof -
  from find_min_encounters_best[OF assms] obtain path where
    "p = Some path" "chain pf path"
    by (auto simp: best_ok_def entry_ok_def)
  with chain_encounters[of pf path] show ?thesis by blast
qed

text \<open>C5 at the run from A to B with countdown 1: the only step adds one encounter.\<close>

theorem C5_encounters_monotone_witness:
  "find_min_encounters finder_AB ''A'' ''B'' 1 =
     Inr (1, Some [\<lparr>planet = ''A'', day = 0, fuel = 3, encounters = 0\<rparr>,
                   \<lparr>planet = ''B'', day = 1, fuel = 2, encounters = 1\<rparr>]) \<and>
   (1 :: int) \<noteq> - 1 \<and>
   Suc 0 < length [\<lparr>planet = ''A'', day = 0, fuel = 3, encounters = 0\<rparr>,
                   \<lparr>planet = ''B'', day = 1, fuel = 2, encounters = (1 :: int)\<rparr>] \<and>
   encounters ([\<lparr>planet = ''A'', day = 0, fuel = 3, encounters = 0\<rparr>,
                \<lparr>planet = ''B'', day = 1, fuel = 2, encounters = 1\<rparr>] ! Suc 0)
     = encounters ([\<lparr>planet = ''A'', day = 0, fuel = 3, encounters = 0\<rparr>,
                    \<lparr>planet = ''B'', day = 1, fuel = 2, encounters = 1\<rparr>] ! 0) + 1"
proof -
  have ne: "(1 :: int) \<noteq> - 1" by simp
  from C5_encounters_monotone[OF run_AB_1 ne] run_AB_1 ne show ?thesis by auto
qed

section \<open>Sightings on day 0\<close>

text \<open>
  The body of the loop in \<^verbatim>\<open>EmpireData.get_bounty_hunter_schedule\<close> (src/src/models.py):
  one sighting \<open>(p, d)\<close> is added to the schedule.
\<close>

definition add_sighting :: "(string \<rightharpoonup> int set) \<Rightarrow> string \<Rightarrow> int \<Rightarrow> (string \<rightharpoonup> int set)" where
  "add_sighting schedule p d =
     (case schedule p of
        None \<Rightarrow> schedule(p \<mapsto> {d})
      | Some days \<Rightarrow> schedule(p \<mapsto> insert d days))"

text \<open>All travel times stored in the graph are positive (true of a graph built from valid routes).\<close>

definition positive_times :: "Galaxy \<Rightarrow> bool" where
  "positive_times g = (\<forall>p. \<forall>nt \<in> set (get_neighbors g p). 0 < snd nt)"

lemma positive_times_foldl:
  "positive_times g \<Longrightarrow> \<forall>r \<in> set routes. 0 < travel_time r \<Longrightarrow>
     positive_times (foldl add_route g routes)"
proof (induction routes arbitrary: g)
  case Nil
  then show ?case by simp
next
  case (Cons r routes)
  from Cons.prems have "positive_times (add_route g r)"
    by (auto simp: positive_times_def get_neighbors_add_route)
  with Cons.prems(2) Cons.IH[of "add_route g r"] show ?case by simp
qed

lemma valid_route_time: "valid_route r \<Longrightarrow> 0 < travel_time r"
  by (auto simp: valid_route_def Route_post_init_def split: if_splits)

lemma Galaxy_init_positive:
  assumes "Galaxy_init routes = Inr g" and "\<forall>r \<in> set routes. valid_route r"
  shows "positive_times g"
proof -
  from assms(1) have g: "g = foldl add_route \<lparr>adjacency = [], planets = {}\<rparr> routes"
    by (simp add: Galaxy_init_def split: if_splits)
  have "positive_times \<lparr>adjacency = [], planets = {}\<rparr>"
    by (simp add: positive_times_def get_neighbors_def)
  moreover from assms(2) have "\<forall>r \<in> set routes. 0 < travel_time r"
    by (simp add: valid_route_time)
  ultimately show ?thesis unfolding g by (rule positive_times_foldl)
qed

lemma step_valid:
  "step pf s s' \<Longrightarrow> 0 \<le> day s' \<and> 0 \<le> fuel s' \<and> 0 \<le> encounters s'"
  by (auto simp: step_def travel_step_def stay_step_def dest!: new_SearchState_Inr)

lemma travel_schedule:
  assumes g: "galaxy pf' = galaxy pf"
    and agree: "\<forall>p d. 0 < d \<longrightarrow> has_bounty_hunters pf' p d = has_bounty_hunters pf p d"
    and cur: "0 \<le> day cur"
  shows "\<forall>nt \<in> set nbrs. 0 < snd nt \<Longrightarrow>
         travel pf' cur path nbrs vq = travel pf cur path nbrs vq"
proof (induction nbrs arbitrary: vq)
  case Nil
  then show ?case by simp
next
  case (Cons a nbrs)
  obtain n t where a: "a = (n, t)" by (cases a)
  with Cons.prems have t: "0 < t" and rest: "\<forall>nt \<in> set nbrs. 0 < snd nt" by auto
  from t cur have "0 < day cur + t" by simp
  with agree have "new_encounters pf' cur n (day cur + t) = new_encounters pf cur n (day cur + t)"
    by (simp add: new_encounters_def)
  with a Cons.IH[OF rest] show ?case by (simp split: sum.splits)
qed

lemma expand_schedule:
  assumes g: "galaxy pf' = galaxy pf" and au: "autonomy pf' = autonomy pf"
    and agree: "\<forall>p d. 0 < d \<longrightarrow> has_bounty_hunters pf' p d = has_bounty_hunters pf p d"
    and pos: "positive_times (galaxy pf)"
    and cur: "0 \<le> day cur"
  shows "expand pf' cur path vq = expand pf cur path vq"
proof -
  from pos have "\<forall>nt \<in> set (get_neighbors (galaxy pf) (planet cur)). 0 < snd nt"
    by (simp add: positive_times_def)
  from travel_schedule[OF g agree cur this]
  have t: "travel pf' cur path (get_neighbors (galaxy pf) (planet cur)) vq
         = travel pf cur path (get_neighbors (galaxy pf) (planet cur)) vq" .
  from cur have "0 < day cur + 1" by simp
  with agree have e: "new_encounters pf' cur (planet cur) (day cur + 1)
       = new_encounters pf cur (planet cur) (day cur + 1)"
    by (simp add: new_encounters_def)
  have r: "refuel pf' cur path x = refuel pf cur path x" for x
    by (simp add: refuel_def au e)
  have w: "wait pf' cur path x = wait pf cur path x" for x
    by (simp add: wait_def au e)
  show ?thesis by (simp add: expand_def g t r w cong: sum.case_cong)
qed

lemma expand_days:
  assumes q: "\<forall>e \<in> set q. 0 \<le> day (fst e)" and ex: "expand pf cur path (v, q) = Inr (v', q')"
  shows "\<forall>e \<in> set q'. 0 \<le> day (fst e)"
proof -
  from expand_grows[OF ex] obtain news where
    "q' = q @ news" "\<forall>e \<in> set news. step pf cur (fst e) \<and> snd e = path @ [fst e]"
    by (auto simp: grows_def)
  with q step_valid[of pf cur] show ?thesis by auto
qed

lemma search_loop_schedule:
  "galaxy pf' = galaxy pf \<Longrightarrow> autonomy pf' = autonomy pf \<Longrightarrow>
   \<forall>p d. 0 < d \<longrightarrow> has_bounty_hunters pf' p d = has_bounty_hunters pf p d \<Longrightarrow>
   positive_times (galaxy pf) \<Longrightarrow> \<forall>e \<in> set q. 0 \<le> day (fst e) \<Longrightarrow>
   search_loop pf' dest countdown q v m b = search_loop pf dest countdown q v m b"
proof (induction pf dest countdown q v m b rule: search_loop.induct)
  case (1 pf dest countdown visited min_encounters best_path)
  then show ?case by (simp add: search_loop.simps)
next
  case (2 pf dest countdown cur path queue visited min_encounters best_path)
  note same = "2.prems"(1,2,3,4)
  from "2.prems"(5) have cur: "0 \<le> day cur" and rest: "\<forall>e \<in> set queue. 0 \<le> day (fst e)"
    by simp_all
  have ex: "expand pf' cur path (visited, queue) = expand pf cur path (visited, queue)"
    using same cur by (rule expand_schedule)
  show ?case
  proof (cases "countdown < day cur")
    case True
    with "2.IH"(1)[OF True same rest] show ?thesis by (simp add: search_loop.simps)
  next
    case late: False
    show ?thesis
    proof (cases "at_least (encounters cur) min_encounters")
      case True
      with late "2.IH"(2)[OF late True same rest] show ?thesis by (simp add: search_loop.simps)
    next
      case worse: False
      show ?thesis
      proof (cases "planet cur = dest")
        case atdest: True
        show ?thesis
        proof (cases "below (encounters cur) min_encounters")
          case True
          with late worse atdest "2.IH"(3)[OF late worse atdest True same rest]
          show ?thesis by (simp add: search_loop.simps)
        next
          case False
          with late worse atdest "2.IH"(4)[OF late worse atdest False same rest]
          show ?thesis by (simp add: search_loop.simps)
        qed
      next
        case away: False
        show ?thesis
        proof (cases "expand pf cur path (visited, queue)")
          case (Inl e)
          with late worse away ex show ?thesis by (simp add: search_loop.simps)
        next
          case (Inr vq)
          obtain v' q' where vq: "vq = (v', q')" by (cases vq)
          from Inr vq have ex': "expand pf cur path (visited, queue) = Inr (v', q')" by simp
          from expand_days[OF rest ex'] have "\<forall>e \<in> set q'. 0 \<le> day (fst e)" .
          from "2.IH"(5)[OF late worse away Inr vq[symmetric] same this]
          show ?thesis using late worse away ex Inr vq by (simp add: search_loop.simps)
        qed
      qed
    qed
  qed
qed

lemma has_bounty_hunters_add_sighting:
  "has_bounty_hunters (pf\<lparr>bounty_hunter_schedule := add_sighting (bounty_hunter_schedule pf) p0 d0\<rparr>) p d
     = (has_bounty_hunters pf p d \<or> p = p0 \<and> d = d0)"
  by (auto simp: has_bounty_hunters_def add_sighting_def split: option.splits)

text \<open>
  C10: on a graph built from valid routes, adding a sighting at the start planet on day 0 to
  the schedule changes no result of \<open>find_min_encounters\<close> (the initial state is created with
  0 encounters, and every later state has a day of at least 1).  In particular, when the
  destination is the start (which exists in the graph), the autonomy is not negative and the
  countdown is at least 0, the result is \<open>(0, [initial state])\<close> even with that sighting.
\<close>

theorem C10_day0_sighting:
  assumes "Galaxy_init routes = Inr (galaxy pf)" and "\<forall>r \<in> set routes. valid_route r"
  shows "find_min_encounters
           (pf\<lparr>bounty_hunter_schedule := add_sighting (bounty_hunter_schedule pf) start 0\<rparr>)
           start dest countdown
         = find_min_encounters pf start dest countdown
       \<and> (has_planet (galaxy pf) start \<and> 0 \<le> autonomy pf \<and> 0 \<le> countdown \<longrightarrow>
            find_min_encounters
              (pf\<lparr>bounty_hunter_schedule := add_sighting (bounty_hunter_schedule pf) start 0\<rparr>)
              start start countdown
            = Inr (0, Some [\<lparr>planet = start, day = 0, fuel = autonomy pf, encounters = 0\<rparr>]))"
proof -
  let ?pf' = "pf\<lparr>bounty_hunter_schedule := add_sighting (bounty_hunter_schedule pf) start 0\<rparr>"
  have pos: "positive_times (galaxy pf)" using assms by (rule Galaxy_init_positive)
  have g: "galaxy ?pf' = galaxy pf" and au: "autonomy ?pf' = autonomy pf" by simp_all
  have agree: "\<forall>p d. 0 < d \<longrightarrow> has_bounty_hunters ?pf' p d = has_bounty_hunters pf p d"
    by (simp add: has_bounty_hunters_add_sighting)
  have loop: "search_loop ?pf' dest' countdown [(s, [s])] v None None
            = search_loop pf dest' countdown [(s, [s])] v None None"
    if "new_SearchState start 0 (autonomy pf) 0 = Inr s" for s v dest'
  proof -
    from new_SearchState_Inr[OF that] have "\<forall>e \<in> set [(s, [s])]. 0 \<le> day (fst e)" by simp
    with g au agree pos show ?thesis by (rule search_loop_schedule)
  qed
  have same: "find_min_encounters ?pf' start dest' countdown
            = find_min_encounters pf start dest' countdown" for dest'
    by (auto simp: find_min_encounters_def loop split: sum.splits)
  have self: "find_min_encounters pf start start countdown
            = Inr (0, Some [\<lparr>planet = start, day = 0, fuel = autonomy pf, encounters = 0\<rparr>])"
    if "has_planet (galaxy pf) start" "0 \<le> autonomy pf" "0 \<le> countdown"
    using that
    by (simp add: find_min_encounters_def is_connected_def new_SearchState_def
        search_loop.simps at_least_def below_def)
  from same self show ?thesis by simp
qed


text \<open>C10 at the two-component galaxy, with the sighting added on A on day 0.\<close>

theorem C10_day0_sighting_witness:
  "Galaxy_init [route_AB, route_CD] = Inr (galaxy finder_AB) \<and>
   valid_route route_AB \<and> valid_route route_CD \<and>
   has_planet (galaxy finder_AB) ''A'' \<and> 0 \<le> autonomy finder_AB \<and> (0 :: int) \<le> 2 \<and>
   find_min_encounters
     (finder_AB\<lparr>bounty_hunter_schedule := add_sighting (bounty_hunter_schedule finder_AB) ''A'' 0\<rparr>)
     ''A'' ''A'' 2
     = Inr (0, Some [\<lparr>planet = ''A'', day = 0, fuel = 3, encounters = 0\<rparr>]) \<and>
   find_min_encounters
     (finder_AB\<lparr>bounty_hunter_schedule := add_sighting (bounty_hunter_schedule finder_AB) ''A'' 0\<rparr>)
     ''A'' ''B'' 2
     = find_min_encounters finder_AB ''A'' ''B'' 2"
proof -
  have g: "Galaxy_init [route_AB, route_CD] = Inr (galaxy finder_AB)"
    using Galaxy_init_AB_CD by (simp add: finder_AB_def)
  have v: "\<forall>r \<in> set [route_AB, route_CD]. valid_route r"
    by (simp add: valid_route_def Route_post_init_def route_AB_def route_CD_def)
  have h: "has_planet (galaxy finder_AB) ''A''"
    by (simp add: finder_AB_def has_planet_def galaxy_AB_CD_def)
  have a: "0 \<le> autonomy finder_AB" "autonomy finder_AB = 3" by (simp_all add: finder_AB_def)
  from C10_day0_sighting[OF g v, of "''A''" "''A''" 2] C10_day0_sighting[OF g v, of "''A''" "''B''" 2]
    g v h a
  show ?thesis by simp
qed

section \<open>The search finds the minimum\<close>

text \<open>
  The key under which a state is stored in \<open>visited\<close>, and what the map records about a
  state: \<open>covered v s\<close> holds when the key of \<open>s\<close> is stored with at most the encounters of
  \<open>s\<close>; \<open>lower v v'\<close> when every stored count of \<open>v\<close> is stored in \<open>v'\<close> with at most that
  count.
\<close>

definition key :: "SearchState \<Rightarrow> string \<times> int \<times> int" where
  "key s = (planet s, day s, fuel s)"

definition covered :: "visited_map \<Rightarrow> SearchState \<Rightarrow> bool" where
  "covered v s = (\<exists>y. v (key s) = Some y \<and> y \<le> encounters s)"

definition lower :: "visited_map \<Rightarrow> visited_map \<Rightarrow> bool" where
  "lower v v' = (\<forall>k y. v k = Some y \<longrightarrow> (\<exists>y'. v' k = Some y' \<and> y' \<le> y))"

lemma lower_refl: "lower v v"
  by (simp add: lower_def)

lemma lower_trans: "lower a b \<Longrightarrow> lower b c \<Longrightarrow> lower a c"
  unfolding lower_def by (meson order_trans)

lemma covered_lower: "covered v s \<Longrightarrow> lower v v' \<Longrightarrow> covered v' s"
  unfolding covered_def lower_def by (meson order_trans)

text \<open>
  What one action does to the visited map and the queue: stored counts only get lower, the
  queue only gets longer, and every count that is stored anew belongs to a queued state.
\<close>

definition refines :: "visited_map \<times> frontier \<Rightarrow> visited_map \<times> frontier \<Rightarrow> bool" where
  "refines vq vq' =
     (lower (fst vq) (fst vq') \<and> set (snd vq) \<subseteq> set (snd vq') \<and>
      (\<forall>s. fst vq' (key s) = Some (encounters s) \<longrightarrow>
            fst vq (key s) = Some (encounters s) \<or>
            (s \<in> fst ` set (snd vq') \<and> 0 \<le> encounters s)))"

lemma refines_refl: "refines vq vq"
  by (simp add: refines_def lower_refl)

lemma refines_trans:
  assumes ab: "refines a b" and bc: "refines b c"
  shows "refines a c"
proof -
  from ab bc have l: "lower (fst a) (fst c)"
    unfolding refines_def by (blast intro: lower_trans)
  from ab bc have q: "set (snd a) \<subseteq> set (snd c)"
    unfolding refines_def by blast
  have n: "fst a (key s) = Some (encounters s) \<or> (s \<in> fst ` set (snd c) \<and> 0 \<le> encounters s)"
    if c: "fst c (key s) = Some (encounters s)" for s
  proof -
    from bc c have "fst b (key s) = Some (encounters s) \<or>
        (s \<in> fst ` set (snd c) \<and> 0 \<le> encounters s)"
      unfolding refines_def by blast
    then show ?thesis
    proof
      assume "fst b (key s) = Some (encounters s)"
      with ab have "fst a (key s) = Some (encounters s) \<or>
          (s \<in> fst ` set (snd b) \<and> 0 \<le> encounters s)"
        unfolding refines_def by blast
      moreover from bc have "set (snd b) \<subseteq> set (snd c)" unfolding refines_def by blast
      ultimately show ?thesis by blast
    qed blast
  qed
  from l q n show ?thesis unfolding refines_def by blast
qed

lemma key_eq: "key s = key t \<Longrightarrow> encounters s = encounters t \<Longrightarrow> s = t"
  by (cases s, cases t) (simp add: key_def)

lemma visit_refines:
  assumes e: "0 \<le> encounters ns"
  shows "refines vq (visit_state ns path vq) \<and> covered (fst (visit_state ns path vq)) ns"
proof (cases "should_visit ns (fst vq)")
  case False
  then obtain y where "fst vq (key ns) = Some y" "y \<le> encounters ns"
    by (auto simp: should_visit_def key_def split: option.splits)
  then have "covered (fst vq) ns" by (auto simp: covered_def)
  with False show ?thesis by (simp add: visit_state_def refines_refl)
next
  case True
  let ?v' = "(fst vq)(key ns \<mapsto> encounters ns)"
  let ?q' = "snd vq @ [(ns, path @ [ns])]"
  from True have vs: "visit_state ns path vq = (?v', ?q')"
    by (simp add: visit_state_def key_def)
  have l: "lower (fst vq) ?v'"
    using True by (auto simp: lower_def should_visit_def key_def split: option.splits)
  have n: "fst vq (key s) = Some (encounters s) \<or> (s \<in> fst ` set ?q' \<and> 0 \<le> encounters s)"
    if "?v' (key s) = Some (encounters s)" for s
  proof (cases "key s = key ns")
    case True
    with that have "encounters s = encounters ns" by simp
    with True have "s = ns" by (rule key_eq)
    with e show ?thesis by simp
  next
    case False
    with that show ?thesis by simp
  qed
  have c: "covered ?v' ns" by (simp add: covered_def)
  from l n c show ?thesis unfolding vs refines_def by auto
qed

lemma travel_refines:
  "travel pf cur path nbrs vq = Inr vq' \<Longrightarrow>
     refines vq vq' \<and>
     (\<forall>nt \<in> set nbrs. snd nt \<le> fuel cur \<longrightarrow>
        (\<forall>s'. new_SearchState (fst nt) (day cur + snd nt) (fuel cur - snd nt)
                (new_encounters pf cur (fst nt) (day cur + snd nt)) = Inr s'
              \<longrightarrow> covered (fst vq') s'))"
proof (induction nbrs arbitrary: vq)
  case Nil
  then show ?case by (simp add: refines_refl)
next
  case (Cons a nbrs)
  obtain n t where a: "a = (n, t)" by (cases a)
  show ?case
  proof (cases "t \<le> fuel cur")
    case False
    with Cons.prems a have "travel pf cur path nbrs vq = Inr vq'" by simp
    from Cons.IH[OF this] False a show ?thesis by simp
  next
    case True
    with Cons.prems a obtain ns where
      ns: "new_SearchState n (day cur + t) (fuel cur - t) (new_encounters pf cur n (day cur + t)) = Inr ns"
      and go: "travel pf cur path nbrs (visit_state ns path vq) = Inr vq'"
      by (auto split: sum.splits)
    from new_SearchState_Inr[OF ns] have "0 \<le> encounters ns" by simp
    from visit_refines[OF this, of vq path]
    have r1: "refines vq (visit_state ns path vq)"
      and c1: "covered (fst (visit_state ns path vq)) ns" by simp_all
    from Cons.IH[OF go]
    have r2: "refines (visit_state ns path vq) vq'"
      and c2: "\<forall>nt \<in> set nbrs. snd nt \<le> fuel cur \<longrightarrow>
        (\<forall>s'. new_SearchState (fst nt) (day cur + snd nt) (fuel cur - snd nt)
                (new_encounters pf cur (fst nt) (day cur + snd nt)) = Inr s'
              \<longrightarrow> covered (fst vq') s')" by simp_all
    from r2 have "lower (fst (visit_state ns path vq)) (fst vq')" by (simp add: refines_def)
    with c1 have "covered (fst vq') ns" by (rule covered_lower)
    with ns c2 a refines_trans[OF r1 r2] show ?thesis by auto
  qed
qed

lemma stay_refines:
  assumes ns: "new_SearchState (planet cur) (day cur + 1) (autonomy pf)
           (new_encounters pf cur (planet cur) (day cur + 1)) = Inr ns"
  shows "refines vq (visit_state ns path vq) \<and> covered (fst (visit_state ns path vq)) ns"
proof -
  from new_SearchState_Inr[OF ns] have "0 \<le> encounters ns" by simp
  then show ?thesis by (rule visit_refines)
qed

lemma expand_refines:
  assumes ex: "expand pf cur path vq = Inr vq'"
  shows "refines vq vq' \<and> (\<forall>s'. step pf cur s' \<longrightarrow> covered (fst vq') s')"
proof -
  from ex obtain vq1 vq2 where
    t: "travel pf cur path (get_neighbors (galaxy pf) (planet cur)) vq = Inr vq1"
    and f: "refuel pf cur path vq1 = Inr vq2"
    and w: "wait pf cur path vq2 = Inr vq'"
    by (auto simp: expand_def split: sum.splits)
  from travel_refines[OF t]
  have r1: "refines vq vq1"
    and c1: "\<forall>s'. travel_step pf cur s' \<longrightarrow> covered (fst vq1) s'"
    by (auto simp: travel_step_def)
  have r2: "refines vq1 vq2"
    and c2: "\<forall>s'. fuel cur < autonomy pf \<and> stay_step pf cur s' \<longrightarrow> covered (fst vq2) s'"
    using f stay_refines[of cur pf _ vq1 path]
    by (auto simp: refuel_def stay_step_def refines_refl split: if_splits sum.splits)
  have r3: "refines vq2 vq'"
    and c3: "\<forall>s'. fuel cur = autonomy pf \<and> stay_step pf cur s' \<longrightarrow> covered (fst vq') s'"
    using w stay_refines[of cur pf _ vq2 path]
    by (auto simp: wait_def stay_step_def refines_refl split: if_splits sum.splits)
  from r2 r3 have l23: "lower (fst vq2) (fst vq')" "lower (fst vq1) (fst vq')"
    by (auto simp: refines_def intro: lower_trans)
  have "covered (fst vq') s'" if "step pf cur s'" for s'
  proof -
    from that have "travel_step pf cur s' \<or> stay_step pf cur s'" by (simp add: step_def)
    moreover have "fuel cur < autonomy pf \<or> fuel cur = autonomy pf" if "stay_step pf cur s'"
      using that by (auto simp: stay_step_def)
    ultimately consider "travel_step pf cur s'" | "fuel cur < autonomy pf" "stay_step pf cur s'"
      | "fuel cur = autonomy pf" "stay_step pf cur s'"
      by blast
    then show ?thesis
    proof cases
      case 1
      with c1 have "covered (fst vq1) s'" by simp
      then show ?thesis using l23(2) by (rule covered_lower)
    next
      case 2
      with c2 have "covered (fst vq2) s'" by simp
      then show ?thesis using l23(1) by (rule covered_lower)
    next
      case 3
      with c3 show ?thesis by simp
    qed
  qed
  with refines_trans[OF refines_trans[OF r1 r2] r3] show ?thesis by simp
qed


text \<open>
  A stored state is closed when the loop is done with it: it was cut by the best count, or
  it is beyond the countdown, or it was expanded and each of its successors is covered.
  The invariant of the loop: every stored count is not negative and belongs to a queued state
  or to a closed one.
\<close>

definition closed :: "PathFinder \<Rightarrow> string \<Rightarrow> int \<Rightarrow> visited_map \<Rightarrow> int option
    \<Rightarrow> SearchState \<Rightarrow> bool" where
  "closed pf dest countdown v m s =
     (at_least (encounters s) m \<or> countdown < day s \<or>
      (planet s \<noteq> dest \<and> (\<forall>s'. step pf s s' \<longrightarrow> covered v s')))"

definition search_inv :: "PathFinder \<Rightarrow> string \<Rightarrow> int \<Rightarrow> frontier \<Rightarrow> visited_map
    \<Rightarrow> int option \<Rightarrow> bool" where
  "search_inv pf dest countdown q v m =
     (\<forall>s. v (key s) = Some (encounters s) \<longrightarrow>
          0 \<le> encounters s \<and> (s \<in> fst ` set q \<or> closed pf dest countdown v m s))"

lemma closed_lower:
  "closed pf dest countdown v m s \<Longrightarrow> lower v v' \<Longrightarrow> closed pf dest countdown v' m s"
  unfolding closed_def by (meson covered_lower)

lemma closed_better:
  "closed pf dest countdown v m s \<Longrightarrow> below e m \<Longrightarrow> closed pf dest countdown v (Some e) s"
  unfolding closed_def by (auto simp: at_least_def below_def split: option.splits)

lemma search_inv_pop:
  assumes inv: "search_inv pf dest countdown ((cur, path) # q) v m"
    and cur: "closed pf dest countdown v m cur"
  shows "search_inv pf dest countdown q v m"
  unfolding search_inv_def
proof (intro allI impI)
  fix s
  assume "v (key s) = Some (encounters s)"
  with inv have "0 \<le> encounters s"
    and "s \<in> fst ` set ((cur, path) # q) \<or> closed pf dest countdown v m s"
    by (simp_all add: search_inv_def)
  with cur show "0 \<le> encounters s \<and> (s \<in> fst ` set q \<or> closed pf dest countdown v m s)"
    by auto
qed

lemma search_inv_best:
  assumes inv: "search_inv pf dest countdown ((cur, path) # q) v m"
    and b: "below (encounters cur) m"
  shows "search_inv pf dest countdown q v (Some (encounters cur))"
  unfolding search_inv_def
proof (intro allI impI)
  fix s
  assume "v (key s) = Some (encounters s)"
  with inv have e: "0 \<le> encounters s"
    and alt: "s \<in> fst ` set ((cur, path) # q) \<or> closed pf dest countdown v m s"
    by (simp_all add: search_inv_def)
  have self: "closed pf dest countdown v (Some (encounters cur)) cur"
    by (simp add: closed_def at_least_def)
  from alt consider "s = cur" | "s \<in> fst ` set q" | "closed pf dest countdown v m s" by auto
  then have "s \<in> fst ` set q \<or> closed pf dest countdown v (Some (encounters cur)) s"
  proof cases
    case 1
    with self show ?thesis by simp
  next
    case 2
    then show ?thesis by simp
  next
    case 3
    from closed_better[OF this b] show ?thesis by simp
  qed
  with e show "0 \<le> encounters s \<and>
      (s \<in> fst ` set q \<or> closed pf dest countdown v (Some (encounters cur)) s)" by simp
qed

lemma search_inv_expand:
  assumes inv: "search_inv pf dest countdown ((cur, path) # q) v m"
    and away: "planet cur \<noteq> dest"
    and ex: "expand pf cur path (v, q) = Inr (v', q')"
  shows "search_inv pf dest countdown q' v' m"
  unfolding search_inv_def
proof (intro allI impI)
  fix s
  assume s: "v' (key s) = Some (encounters s)"
  from expand_refines[OF ex]
  have l: "lower v v'" and sub: "set q \<subseteq> set q'"
    and new: "\<forall>s. v' (key s) = Some (encounters s) \<longrightarrow>
            v (key s) = Some (encounters s) \<or> (s \<in> fst ` set q' \<and> 0 \<le> encounters s)"
    and cov: "\<forall>s'. step pf cur s' \<longrightarrow> covered v' s'"
    by (simp_all add: refines_def)
  from away cov have self: "closed pf dest countdown v' m cur" by (simp add: closed_def)
  from new s consider "v (key s) = Some (encounters s)"
    | "s \<in> fst ` set q'" "0 \<le> encounters s" by blast
  then show "0 \<le> encounters s \<and> (s \<in> fst ` set q' \<or> closed pf dest countdown v' m s)"
  proof cases
    case 1
    with inv have e: "0 \<le> encounters s"
      and alt: "s \<in> fst ` set ((cur, path) # q) \<or> closed pf dest countdown v m s"
      by (simp_all add: search_inv_def)
    from alt consider "s = cur" | "s \<in> fst ` set q" | "closed pf dest countdown v m s" by auto
    then have "s \<in> fst ` set q' \<or> closed pf dest countdown v' m s"
    proof cases
      case 1
      with self show ?thesis by simp
    next
      case 2
      with sub show ?thesis by auto
    next
      case 3
      from closed_lower[OF this l] show ?thesis by simp
    qed
    with e show ?thesis by simp
  next
    case 2
    then show ?thesis by simp
  qed
qed

lemma search_loop_inv:
  "search_inv pf dest countdown q v m \<Longrightarrow>
   search_loop pf dest countdown q v m b = Inr (m', b') \<Longrightarrow>
   \<exists>v'. lower v v' \<and> search_inv pf dest countdown [] v' m'"
proof (induction pf dest countdown q v m b rule: search_loop.induct)
  case (1 pf dest countdown visited min_encounters best_path)
  then have "min_encounters = m'" by (simp add: search_loop.simps)
  with "1.prems"(1) lower_refl show ?case by blast
next
  case (2 pf dest countdown cur path queue visited min_encounters best_path)
  note inv = "2.prems"(1) and run = "2.prems"(2)
  show ?case
  proof (cases "countdown < day cur")
    case True
    with run have r: "search_loop pf dest countdown queue visited min_encounters best_path
        = Inr (m', b')" by (simp add: search_loop.simps)
    from True have "closed pf dest countdown visited min_encounters cur" by (simp add: closed_def)
    from "2.IH"(1)[OF True search_inv_pop[OF inv this] r] show ?thesis .
  next
    case late: False
    show ?thesis
    proof (cases "at_least (encounters cur) min_encounters")
      case True
      with late run have r: "search_loop pf dest countdown queue visited min_encounters best_path
          = Inr (m', b')" by (simp add: search_loop.simps)
      from True have "closed pf dest countdown visited min_encounters cur" by (simp add: closed_def)
      from "2.IH"(2)[OF late True search_inv_pop[OF inv this] r] show ?thesis .
    next
      case worse: False
      then have bel: "below (encounters cur) min_encounters"
        by (auto simp: at_least_def below_def split: option.splits)
      show ?thesis
      proof (cases "planet cur = dest")
        case atdest: True
        with late worse bel run
        have r: "search_loop pf dest countdown queue visited (Some (encounters cur)) (Some path)
            = Inr (m', b')" by (simp add: search_loop.simps)
        from "2.IH"(3)[OF late worse atdest bel search_inv_best[OF inv bel] r] show ?thesis .
      next
        case away: False
        with late worse run obtain vq where
          ex: "expand pf cur path (visited, queue) = Inr vq"
          by (auto simp: search_loop.simps split: sum.splits)
        obtain v' q' where vq: "vq = (v', q')" by (cases vq)
        with late worse away run ex
        have r: "search_loop pf dest countdown q' v' min_encounters best_path = Inr (m', b')"
          by (simp add: search_loop.simps)
        from ex vq have ex': "expand pf cur path (visited, queue) = Inr (v', q')" by simp
        from expand_refines[OF ex'] have l: "lower visited v'" by (simp add: refines_def)
        from "2.IH"(5)[OF late worse away ex vq[symmetric] search_inv_expand[OF inv away ex'] r]
        obtain v'' where "lower v' v''" "search_inv pf dest countdown [] v'' m'" by blast
        with l show ?thesis by (blast intro: lower_trans)
      qed
    qed
  qed
qed


text \<open>On a graph with positive travel times the loop raises nothing.\<close>

lemma new_SearchState_valid:
  "0 \<le> d \<Longrightarrow> 0 \<le> f \<Longrightarrow> 0 \<le> e \<Longrightarrow>
     new_SearchState p d f e = Inr \<lparr>planet = p, day = d, fuel = f, encounters = e\<rparr>"
  by (simp add: new_SearchState_def)

lemma new_encounters_ge: "encounters cur \<le> new_encounters pf cur p d"
  by (simp add: new_encounters_def)

lemma travel_total:
  assumes d: "0 \<le> day cur" and e: "0 \<le> encounters cur"
  shows "\<forall>nt \<in> set nbrs. 0 < snd nt \<Longrightarrow> \<exists>vq'. travel pf cur path nbrs vq = Inr vq'"
proof (induction nbrs arbitrary: vq)
  case Nil
  then show ?case by simp
next
  case (Cons a nbrs)
  obtain n t where a: "a = (n, t)" by (cases a)
  with Cons.prems have t: "0 < t" and rest: "\<forall>nt \<in> set nbrs. 0 < snd nt" by auto
  show ?case
  proof (cases "t \<le> fuel cur")
    case False
    with a Cons.IH[OF rest, of vq] show ?thesis by simp
  next
    case True
    from e new_encounters_ge[of cur pf n "day cur + t"]
    have "0 \<le> new_encounters pf cur n (day cur + t)" by linarith
    with d t True
    have "new_SearchState n (day cur + t) (fuel cur - t) (new_encounters pf cur n (day cur + t))
        = Inr \<lparr>planet = n, day = day cur + t, fuel = fuel cur - t,
               encounters = new_encounters pf cur n (day cur + t)\<rparr>"
      by (intro new_SearchState_valid) simp_all
    with a True Cons.IH[OF rest] show ?thesis by simp
  qed
qed

lemma expand_total:
  assumes pos: "positive_times (galaxy pf)" and au: "0 \<le> autonomy pf"
    and d: "0 \<le> day cur" and e: "0 \<le> encounters cur"
  shows "\<exists>vq'. expand pf cur path vq = Inr vq'"
proof -
  from pos have "\<forall>nt \<in> set (get_neighbors (galaxy pf) (planet cur)). 0 < snd nt"
    by (simp add: positive_times_def)
  from travel_total[OF d e this] obtain vq1 where
    t: "travel pf cur path (get_neighbors (galaxy pf) (planet cur)) vq = Inr vq1" by blast
  from e new_encounters_ge[of cur pf "planet cur" "day cur + 1"]
  have "0 \<le> new_encounters pf cur (planet cur) (day cur + 1)" by linarith
  with d au
  have ns: "new_SearchState (planet cur) (day cur + 1) (autonomy pf)
        (new_encounters pf cur (planet cur) (day cur + 1))
      = Inr \<lparr>planet = planet cur, day = day cur + 1, fuel = autonomy pf,
             encounters = new_encounters pf cur (planet cur) (day cur + 1)\<rparr>"
    by (intro new_SearchState_valid) simp_all
  then have "\<exists>vq2. refuel pf cur path vq1 = Inr vq2" by (simp add: refuel_def)
  then obtain vq2 where f: "refuel pf cur path vq1 = Inr vq2" by blast
  from ns have "\<exists>vq3. wait pf cur path vq2 = Inr vq3" by (simp add: wait_def)
  then obtain vq3 where w: "wait pf cur path vq2 = Inr vq3" by blast
  from t f w show ?thesis by (simp add: expand_def)
qed

lemma expand_valid:
  assumes q: "\<forall>e \<in> set q. 0 \<le> day (fst e) \<and> 0 \<le> encounters (fst e)"
    and ex: "expand pf cur path (v, q) = Inr (v', q')"
  shows "\<forall>e \<in> set q'. 0 \<le> day (fst e) \<and> 0 \<le> encounters (fst e)"
proof -
  from expand_grows[OF ex] obtain news where
    "q' = q @ news" "\<forall>e \<in> set news. step pf cur (fst e) \<and> snd e = path @ [fst e]"
    by (auto simp: grows_def)
  with q step_valid[of pf cur] show ?thesis by auto
qed

lemma search_loop_total:
  "positive_times (galaxy pf) \<Longrightarrow> 0 \<le> autonomy pf \<Longrightarrow>
   \<forall>e \<in> set q. 0 \<le> day (fst e) \<and> 0 \<le> encounters (fst e) \<Longrightarrow>
   \<exists>r. search_loop pf dest countdown q v m b = Inr r"
proof (induction pf dest countdown q v m b rule: search_loop.induct)
  case (1 pf dest countdown visited min_encounters best_path)
  then show ?case by (simp add: search_loop.simps)
next
  case (2 pf dest countdown cur path queue visited min_encounters best_path)
  note pos = "2.prems"(1) and au = "2.prems"(2)
  from "2.prems"(3) have d: "0 \<le> day cur" and e: "0 \<le> encounters cur"
    and rest: "\<forall>e \<in> set queue. 0 \<le> day (fst e) \<and> 0 \<le> encounters (fst e)"
    by simp_all
  show ?case
  proof (cases "countdown < day cur")
    case True
    with "2.IH"(1)[OF True pos au rest] show ?thesis by (simp add: search_loop.simps)
  next
    case late: False
    show ?thesis
    proof (cases "at_least (encounters cur) min_encounters")
      case True
      with late "2.IH"(2)[OF late True pos au rest] show ?thesis by (simp add: search_loop.simps)
    next
      case worse: False
      show ?thesis
      proof (cases "planet cur = dest")
        case atdest: True
        show ?thesis
        proof (cases "below (encounters cur) min_encounters")
          case True
          with late worse atdest "2.IH"(3)[OF late worse atdest True pos au rest]
          show ?thesis by (simp add: search_loop.simps)
        next
          case False
          with late worse atdest "2.IH"(4)[OF late worse atdest False pos au rest]
          show ?thesis by (simp add: search_loop.simps)
        qed
      next
        case away: False
        from expand_total[OF pos au d e] obtain vq where
          ex: "expand pf cur path (visited, queue) = Inr vq" by blast
        obtain v' q' where vq: "vq = (v', q')" by (cases vq)
        from ex vq have ex': "expand pf cur path (visited, queue) = Inr (v', q')" by simp
        from expand_valid[OF rest ex']
        have "\<forall>e \<in> set q'. 0 \<le> day (fst e) \<and> 0 \<le> encounters (fst e)" .
        from "2.IH"(5)[OF late worse away ex vq[symmetric] pos au this]
        show ?thesis using late worse away ex vq by (simp add: search_loop.simps)
      qed
    qed
  qed
qed

text \<open>An action is still possible, with no more encounters, from the same key with fewer encounters.\<close>

lemma new_SearchState_shift:
  "new_SearchState p d f e = Inr s' \<Longrightarrow> 0 \<le> e' \<Longrightarrow>
     new_SearchState p d f e' = Inr (s'\<lparr>encounters := e'\<rparr>)"
  by (auto simp: new_SearchState_def split: if_splits)

lemma new_encounters_shift:
  "new_encounters pf (s\<lparr>encounters := y\<rparr>) p d = new_encounters pf s p d - (encounters s - y)"
  by (simp add: new_encounters_def)

lemma step_shift:
  assumes st: "step pf s s'" and y: "0 \<le> y" "y \<le> encounters s"
  shows "\<exists>t'. step pf (s\<lparr>encounters := y\<rparr>) t' \<and> key t' = key s' \<and> encounters t' \<le> encounters s'"
proof -
  let ?s = "s\<lparr>encounters := y\<rparr>"
  have shift: "\<exists>t'. new_SearchState p d f (new_encounters pf ?s p d) = Inr t' \<and>
                 key t' = key s' \<and> encounters t' \<le> encounters s'"
    if n: "new_SearchState p d f (new_encounters pf s p d) = Inr s'" for p d f
  proof -
    let ?e = "new_encounters pf ?s p d"
    from y new_encounters_ge[of ?s pf p d] have "0 \<le> ?e" by simp
    from new_SearchState_shift[OF n this]
    have "new_SearchState p d f ?e = Inr (s'\<lparr>encounters := ?e\<rparr>)" .
    moreover from new_SearchState_Inr[OF n] y have "?e \<le> encounters s'"
      by (simp add: new_encounters_shift)
    ultimately show ?thesis by (auto simp: key_def)
  qed
  from st show ?thesis unfolding step_def
  proof
    assume "travel_step pf s s'"
    then obtain nt where nt: "nt \<in> set (get_neighbors (galaxy pf) (planet s))" "snd nt \<le> fuel s"
      and n: "new_SearchState (fst nt) (day s + snd nt) (fuel s - snd nt)
                (new_encounters pf s (fst nt) (day s + snd nt)) = Inr s'"
      by (auto simp: travel_step_def)
    from shift[OF n] obtain t' where
      "new_SearchState (fst nt) (day s + snd nt) (fuel s - snd nt)
         (new_encounters pf ?s (fst nt) (day s + snd nt)) = Inr t'"
      "key t' = key s'" "encounters t' \<le> encounters s'" by blast
    with nt have "travel_step pf ?s t' \<and> key t' = key s' \<and> encounters t' \<le> encounters s'"
      by (auto simp: travel_step_def)
    then show "\<exists>t'. (travel_step pf ?s t' \<or> stay_step pf ?s t') \<and> key t' = key s' \<and>
        encounters t' \<le> encounters s'" by blast
  next
    assume "stay_step pf s s'"
    then have f: "fuel s \<le> autonomy pf"
      and n: "new_SearchState (planet s) (day s + 1) (autonomy pf)
                (new_encounters pf s (planet s) (day s + 1)) = Inr s'"
      by (auto simp: stay_step_def)
    from shift[OF n] obtain t' where
      "new_SearchState (planet s) (day s + 1) (autonomy pf)
         (new_encounters pf ?s (planet s) (day s + 1)) = Inr t'"
      "key t' = key s'" "encounters t' \<le> encounters s'" by blast
    with f have "stay_step pf ?s t' \<and> key t' = key s' \<and> encounters t' \<le> encounters s'"
      by (auto simp: stay_step_def)
    then show "\<exists>t'. (travel_step pf ?s t' \<or> stay_step pf ?s t') \<and> key t' = key s' \<and>
        encounters t' \<le> encounters s'" by blast
  qed
qed

lemma chain_last_encounters:
  "chain pf (s # rest) \<Longrightarrow> encounters s \<le> encounters (last (s # rest))"
proof (induction rest arbitrary: s)
  case Nil
  then show ?case by simp
next
  case (Cons a rest)
  from Cons.prems have "step pf s a" "chain pf (a # rest)" by simp_all
  with step_encounters[of pf s a] Cons.IH[of a] show ?case by auto
qed

lemma step_day:
  assumes st: "step pf s s'" and pos: "positive_times (galaxy pf)"
  shows "day s < day s'"
proof -
  from st consider "travel_step pf s s'" | "stay_step pf s s'" by (auto simp: step_def)
  then show ?thesis
  proof cases
    case 1
    then obtain nt where nt: "nt \<in> set (get_neighbors (galaxy pf) (planet s))"
      and n: "new_SearchState (fst nt) (day s + snd nt) (fuel s - snd nt)
                (new_encounters pf s (fst nt) (day s + snd nt)) = Inr s'"
      by (auto simp: travel_step_def)
    from pos nt have "0 < snd nt" by (simp add: positive_times_def)
    with new_SearchState_Inr[OF n] show ?thesis by simp
  next
    case 2
    then have "new_SearchState (planet s) (day s + 1) (autonomy pf)
                (new_encounters pf s (planet s) (day s + 1)) = Inr s'"
      by (simp add: stay_step_def)
    from new_SearchState_Inr[OF this] show ?thesis by simp
  qed
qed

lemma chain_days:
  "chain pf (s # rest) \<Longrightarrow> positive_times (galaxy pf) \<Longrightarrow>
     \<forall>x \<in> set (s # rest). day x \<le> day (last (s # rest))"
proof (induction rest arbitrary: s)
  case Nil
  then show ?case by simp
next
  case (Cons a rest)
  from Cons.prems have st: "step pf s a" and ch: "chain pf (a # rest)" by simp_all
  from Cons.IH[OF ch Cons.prems(2)]
  have ih: "\<forall>x \<in> set (a # rest). day x \<le> day (last (a # rest))" .
  then have "day a \<le> day (last (a # rest))" by simp
  with step_day[OF st Cons.prems(2)] ih show ?case by auto
qed

lemma closed_chain:
  assumes all: "search_inv pf dest countdown [] v m"
  shows "chain pf (s # rest) \<Longrightarrow> \<forall>x \<in> set (s # rest). day x \<le> countdown \<Longrightarrow>
         planet (last (s # rest)) = dest \<Longrightarrow> covered v s \<Longrightarrow>
         \<exists>b. m = Some b \<and> b \<le> encounters (last (s # rest))"
proof (induction rest arbitrary: s)
  case Nil
  from Nil.prems(4) obtain y where y: "v (key s) = Some y" "y \<le> encounters s"
    by (auto simp: covered_def)
  let ?s = "s\<lparr>encounters := y\<rparr>"
  from y have vs: "v (key ?s) = Some (encounters ?s)" by (simp add: key_def)
  from all[unfolded search_inv_def, rule_format, OF vs]
  have "closed pf dest countdown v m ?s" by simp
  with Nil.prems(2,3) have "at_least y m" by (simp add: closed_def)
  with y show ?case by (auto simp: at_least_def split: option.splits)
next
  case (Cons a rest)
  from Cons.prems(1) have st: "step pf s a" and ch: "chain pf (a # rest)" by simp_all
  from Cons.prems(4) obtain y where y: "v (key s) = Some y" "y \<le> encounters s"
    by (auto simp: covered_def)
  let ?s = "s\<lparr>encounters := y\<rparr>"
  from y have vs: "v (key ?s) = Some (encounters ?s)" by (simp add: key_def)
  from all[unfolded search_inv_def, rule_format, OF vs]
  have y0: "0 \<le> y" and cl: "closed pf dest countdown v m ?s"
    by simp_all
  from Cons.prems(2) have late: "\<not> countdown < day ?s" by simp
  from chain_last_encounters[OF Cons.prems(1)]
  have mono: "encounters s \<le> encounters (last (s # a # rest))" .
  from cl late consider "at_least y m" | "\<forall>s'. step pf ?s s' \<longrightarrow> covered v s'"
    by (auto simp: closed_def)
  then show ?case
  proof cases
    case 1
    with y mono show ?thesis by (auto simp: at_least_def split: option.splits)
  next
    case 2
    from step_shift[OF st y0 y(2)] obtain t' where
      t': "step pf ?s t'" "key t' = key a" "encounters t' \<le> encounters a" by blast
    with 2 have "covered v t'" by simp
    with t'(2,3) have "covered v a" by (auto simp: covered_def)
    from Cons.IH[OF ch _ _ this] Cons.prems(2,3) show ?thesis by simp
  qed
qed


text \<open>
  C4: on a graph built from valid routes, with schedule, autonomy, start and destination
  fixed, if \<open>find_min_encounters\<close> returns an encounter count \<open>e1\<close> other than \<open>-1\<close> for the
  countdown \<open>d1\<close> and \<open>d1 \<le> d2\<close>, then for the countdown \<open>d2\<close> it returns (it raises nothing)
  an encounter count \<open>e2\<close> other than \<open>-1\<close> with \<open>e2 \<le> e1\<close>.
\<close>

theorem C4_deadline_monotone:
  assumes g: "Galaxy_init routes = Inr (galaxy pf)" and valid: "\<forall>r \<in> set routes. valid_route r"
    and d: "d1 \<le> d2"
    and r1: "find_min_encounters pf start dest d1 = Inr (e1, p1)" and ne: "e1 \<noteq> - 1"
  shows "\<exists>e2 p2. find_min_encounters pf start dest d2 = Inr (e2, p2) \<and> e2 \<noteq> - 1 \<and> e2 \<le> e1"
proof -
  let ?init = "\<lparr>planet = start, day = 0, fuel = autonomy pf, encounters = 0\<rparr>"
  let ?v0 = "[(start, 0, autonomy pf) \<mapsto> (0 :: int)]"
  let ?q0 = "[(?init, [?init])]"
  have pos: "positive_times (galaxy pf)" using g valid by (rule Galaxy_init_positive)
  from r1 ne have known: "has_planet (galaxy pf) start" "has_planet (galaxy pf) dest"
    "is_connected (galaxy pf) start dest"
    by (auto simp: find_min_encounters_def split: if_splits)
  from r1 ne known have au: "0 \<le> autonomy pf"
    by (auto simp: find_min_encounters_def new_SearchState_def split: if_splits)
  then have new: "new_SearchState start 0 (autonomy pf) 0 = Inr ?init"
    by (simp add: new_SearchState_def)
  \<comment> \<open>the path found within the shorter countdown\<close>
  from find_min_encounters_best[OF r1 ne] obtain p where
    p: "p \<noteq> []" "hd p = ?init" "chain pf p" "planet (last p) = dest" "day (last p) \<le> d1"
      "encounters (last p) = e1"
    by (auto simp: best_ok_def entry_ok_def)
  then obtain rest where rest: "p = ?init # rest" by (cases p) auto
  \<comment> \<open>the search with the longer countdown returns\<close>
  have "\<forall>e \<in> set ?q0. 0 \<le> day (fst e) \<and> 0 \<le> encounters (fst e)" by simp
  from search_loop_total[OF pos au this, of dest d2 ?v0 None None]
  obtain m2 b2 where loop: "search_loop pf dest d2 ?q0 ?v0 None None = Inr (m2, b2)" by force
  \<comment> \<open>and its visited map is closed under the actions\<close>
  have "search_inv pf dest d2 ?q0 ?v0 None"
    unfolding search_inv_def
  proof (intro allI impI)
    fix s
    assume s: "?v0 (key s) = Some (encounters s)"
    then have "key s = key ?init" "encounters s = encounters ?init"
      by (auto simp: key_def split: if_splits)
    then have "s = ?init" by (rule key_eq)
    then show "0 \<le> encounters s \<and> (s \<in> fst ` set ?q0 \<or> closed pf dest d2 ?v0 None s)"
      by simp
  qed
  from search_loop_inv[OF this loop] obtain v' where
    low: "lower ?v0 v'" and inv: "search_inv pf dest d2 [] v' m2" by blast
  have "covered ?v0 ?init" by (simp add: covered_def key_def)
  then have cov: "covered v' ?init" using low by (rule covered_lower)
  from p(3) rest have ch: "chain pf (?init # rest)" by simp
  from chain_days[OF ch pos] p(5) d rest
  have days: "\<forall>x \<in> set (?init # rest). day x \<le> d2" by fastforce
  from p(4) rest have at: "planet (last (?init # rest)) = dest" by simp
  from closed_chain[OF inv ch days at cov] p(6) rest
  obtain e2 where m2: "m2 = Some e2" and le: "e2 \<le> e1" by auto
  \<comment> \<open>the count it returns is not negative\<close>
  have "\<forall>x \<in> set ?q0. entry_ok pf ?init x" by (simp add: entry_ok_def)
  moreover have "best_ok pf ?init dest d2 None None" by (simp add: best_ok_def)
  ultimately have "best_ok pf ?init dest d2 m2 b2" using loop by (rule search_loop_best_ok)
  with m2 obtain p2 where
    p2: "p2 \<noteq> []" "hd p2 = ?init" "chain pf p2" "encounters (last p2) = e2"
    by (auto simp: best_ok_def entry_ok_def)
  then obtain rest2 where rest2: "p2 = ?init # rest2" by (cases p2) auto
  from chain_last_encounters[of pf ?init rest2] p2(3,4) rest2 have "0 \<le> e2" by simp
  then have "e2 \<noteq> - 1" by simp
  moreover from known new loop m2
  have "find_min_encounters pf start dest d2 = Inr (e2, b2)"
    by (simp add: find_min_encounters_def)
  ultimately show ?thesis using le by blast
qed

text \<open>C4 at the run from A to B: one encounter within 1 day, none within 2 days.\<close>

theorem C4_deadline_monotone_witness:
  "Galaxy_init [route_AB, route_CD] = Inr (galaxy finder_AB) \<and>
   valid_route route_AB \<and> valid_route route_CD \<and> (1 :: int) \<le> 2 \<and>
   find_min_encounters finder_AB ''A'' ''B'' 1 =
     Inr (1, Some [\<lparr>planet = ''A'', day = 0, fuel = 3, encounters = 0\<rparr>,
                   \<lparr>planet = ''B'', day = 1, fuel = 2, encounters = 1\<rparr>]) \<and>
   (1 :: int) \<noteq> - 1 \<and>
   find_min_encounters finder_AB ''A'' ''B'' 2 =
     Inr (0, Some [\<lparr>planet = ''A'', day = 0, fuel = 3, encounters = 0\<rparr>,
                   \<lparr>planet = ''A'', day = 1, fuel = 3, encounters = 0\<rparr>,
                   \<lparr>planet = ''B'', day = 2, fuel = 2, encounters = 0\<rparr>]) \<and>
   (0 :: int) \<noteq> - 1 \<and> (0 :: int) \<le> 1"
proof -
  have g: "Galaxy_init [route_AB, route_CD] = Inr (galaxy finder_AB)"
    using Galaxy_init_AB_CD by (simp add: finder_AB_def)
  have v: "\<forall>r \<in> set [route_AB, route_CD]. valid_route r"
    by (simp add: valid_route_def Route_post_init_def route_AB_def route_CD_def)
  have d: "(1 :: int) \<le> 2" by simp
  have ne: "(1 :: int) \<noteq> - 1" by simp
  from C4_deadline_monotone[OF g v d run_AB_1 ne] g v run_AB_1 run_AB_2
  show ?thesis by simp
qed

end
